theory Spec2Isabelle
  imports Complex_Main "HOL-Library.Char_ord" "HOL-Library.List_Lexorder" "HOL-Library.Multiset"
begin

section \<open>Data model\<close>

text \<open>
  The preprocessing script of the notebook (\<^verbatim>\<open>src/data/preprocess.py\<close>) works on pandas
  data frames. A numeric cell is a float; floats are modelled in exact arithmetic as
  \<^typ>\<open>real\<close>, and the missing value NaN as \<^term>\<open>None\<close>. Arithmetic with NaN gives NaN and
  every comparison with NaN is false. Exact arithmetic is what the code does on numbers
  that its operations do not round; the outlier handler is given a second time with the
  rounding operations as parameters, for the statements that must hold under rounding.
\<close>

type_synonym float = "real option"

definition fadd :: "float \<Rightarrow> float \<Rightarrow> float" where
  "fadd a b = (case (a, b) of (Some x, Some y) \<Rightarrow> Some (x + y) | _ \<Rightarrow> None)"

definition fsub :: "float \<Rightarrow> float \<Rightarrow> float" where
  "fsub a b = (case (a, b) of (Some x, Some y) \<Rightarrow> Some (x - y) | _ \<Rightarrow> None)"

definition fmul :: "float \<Rightarrow> float \<Rightarrow> float" where
  "fmul a b = (case (a, b) of (Some x, Some y) \<Rightarrow> Some (x * y) | _ \<Rightarrow> None)"

definition fdiv :: "float \<Rightarrow> float \<Rightarrow> float" where
  \<comment> \<open>only used with a divisor that is not zero\<close>
  "fdiv a b = (case (a, b) of (Some x, Some y) \<Rightarrow> Some (x / y) | _ \<Rightarrow> None)"

definition flt :: "float \<Rightarrow> float \<Rightarrow> bool" where
  "flt a b = (case (a, b) of (Some x, Some y) \<Rightarrow> x < y | _ \<Rightarrow> False)"

definition fgt :: "float \<Rightarrow> float \<Rightarrow> bool" where
  "fgt a b = (case (a, b) of (Some x, Some y) \<Rightarrow> x > y | _ \<Rightarrow> False)"

text \<open>
  A column is numeric (dtype \<^verbatim>\<open>float64\<close> or \<^verbatim>\<open>int64\<close>) or holds strings (dtype
  \<^verbatim>\<open>object\<close>). A data frame is the ordered list of its named columns; its rows are the
  positions of the column lists.
\<close>

datatype column = NumCol "float list" | StrCol "string option list"

type_synonym frame = "(string \<times> column) list"

fun col_len :: "column \<Rightarrow> nat" where
  "col_len (NumCol xs) = length xs"
| "col_len (StrCol xs) = length xs"

definition n_rows :: "frame \<Rightarrow> nat" where
  "n_rows df = (case df of [] \<Rightarrow> 0 | (c, col) # _ \<Rightarrow> col_len col)"

definition wf_frame :: "frame \<Rightarrow> bool" where
  "wf_frame df = (distinct (map fst df) \<and> list_all (\<lambda>(c, col). col_len col = n_rows df) df)"

fun set_column :: "frame \<Rightarrow> string \<Rightarrow> column \<Rightarrow> frame" where
  \<comment> \<open>\<^verbatim>\<open>df[col] = values\<close> for a column that exists keeps its position\<close>
  "set_column [] c v = [(c, v)]"
| "set_column ((c', v') # df) c v =
     (if c' = c then (c, v) # df else (c', v') # set_column df c v)"

text \<open>Exceptions of the Python run time and of the libraries, as values.\<close>

datatype exn =
    KeyError string
  | TypeError
  | ValueError
  | NotFittedError
  | FileNotFoundError
  | PermissionError
  | EmptyDataError
  | ParserError
  | UnicodeDecodeError
  | KeyboardInterrupt
  | SystemExit

text \<open>
  The records written through \<^verbatim>\<open>logger\<close>, one constructor for each format string of the
  script.
\<close>

datatype log_record =
    Info_loading string
  | Info_loaded nat nat
  | Error_loading exn
  | Warning_missing "(string \<times> nat) list"
  | Info_no_missing
  | Info_outliers nat string
  | Info_start
  | Info_shapes nat nat nat
  | Info_split nat nat nat nat
  | Info_done

text \<open>
  Data frames are mutable objects. The store holds them by address; a new object takes the
  next address.
\<close>

type_synonym heap = "frame list"

section \<open>Outlier handling\<close>

text \<open>
  Modelled from the spec: \<^verbatim>\<open>Series.quantile(q)\<close> is code of pandas, which is not under
  \<^verbatim>\<open>src/\<close>. The quartiles \<open>Q1\<close> and \<open>Q3\<close> of sections 3 and 8 are its values at
  \<open>0.25\<close> and \<open>0.75\<close> with the default linear interpolation, which the example of
  section 8 follows: missing values are skipped, the remaining \<open>n\<close> values are sorted, and
  the result interpolates between the values at the positions around \<open>(n - 1) * q\<close>. A
  column with no value gives NaN.
\<close>

fun present :: "'a option list \<Rightarrow> 'a list" where
  "present [] = []"
| "present (None # xs) = present xs"
| "present (Some x # xs) = x # present xs"

definition lerp_sorted :: "real list \<Rightarrow> real \<Rightarrow> real" where
  "lerp_sorted xs pos =
     (let lo = nat \<lfloor>pos\<rfloor>;
          hi = min (lo + 1) (length xs - 1);
          gamma = pos - real_of_int \<lfloor>pos\<rfloor>
      in xs ! lo + (xs ! hi - xs ! lo) * gamma)"

definition quantile :: "float list \<Rightarrow> real \<Rightarrow> float" where
  "quantile col q =
     (let xs = sort (present col)
      in if xs = [] then None else Some (lerp_sorted xs (real (length xs - 1) * q)))"

text \<open>
  The nested \<^verbatim>\<open>np.where\<close> that caps a column:
  \<^verbatim>\<open>np.where(c < lower, lower, np.where(c > upper, upper, c))\<close>.
\<close>

definition cap :: "float \<Rightarrow> float \<Rightarrow> float \<Rightarrow> float" where
  "cap lower upper x = (if flt x lower then lower else if fgt x upper then upper else x)"

definition iqr_bounds :: "float list \<Rightarrow> real \<Rightarrow> float \<times> float" where
  "iqr_bounds xs threshold =
     (let Q1 = quantile xs (1/4);
          Q3 = quantile xs (3/4);
          IQR = fsub Q3 Q1;
          lower_bound = fsub Q1 (fmul (Some threshold) IQR);
          upper_bound = fadd Q3 (fmul (Some threshold) IQR)
      in (lower_bound, upper_bound))"

text \<open>
  One pass of the loop body of \<^verbatim>\<open>handle_outliers\<close> for the column \<open>col\<close>, on the frame
  at address \<open>data_clean\<close>. Reading a column that is absent raises \<^verbatim>\<open>KeyError\<close>, and the
  quantile of a column that holds a string raises \<^verbatim>\<open>TypeError\<close>. An object column in
  which every value is missing has the quantile NaN, no comparison with NaN holds, and the
  column stays as it is.
\<close>

definition cap_column ::
  "heap \<Rightarrow> nat \<Rightarrow> string \<Rightarrow> real \<Rightarrow> heap \<times> log_record list \<times> (exn + unit)" where
  "cap_column h data_clean col threshold =
     (case map_of (h ! data_clean) col of
        None \<Rightarrow> (h, [], Inl (KeyError col))
      | Some (StrCol xs) \<Rightarrow>
          (if present xs = [] then (h, [], Inr ()) else (h, [], Inl TypeError))
      | Some (NumCol xs) \<Rightarrow>
          (let (lower_bound, upper_bound) = iqr_bounds xs threshold;
               outliers = filter (\<lambda>x. flt x lower_bound \<or> fgt x upper_bound) xs;
               lg = (if outliers \<noteq> [] then [Info_outliers (length outliers) col] else []);
               capped = map (cap lower_bound upper_bound) xs
           in (h[data_clean := set_column (h ! data_clean) col (NumCol capped)], lg, Inr ())))"

fun outlier_loop ::
  "heap \<Rightarrow> nat \<Rightarrow> string list \<Rightarrow> string \<Rightarrow> real \<Rightarrow> heap \<times> log_record list \<times> (exn + unit)" where
  "outlier_loop h data_clean [] method threshold = (h, [], Inr ())"
| "outlier_loop h data_clean (col # columns) method threshold =
     (if method = ''iqr'' then
        (case cap_column h data_clean col threshold of
           (h', lg, Inl e) \<Rightarrow> (h', lg, Inl e)
         | (h', lg, Inr _) \<Rightarrow>
             (case outlier_loop h' data_clean columns method threshold of
                (h'', lg', r) \<Rightarrow> (h'', lg @ lg', r)))
      else outlier_loop h data_clean columns method threshold)"

text \<open>
  \<^verbatim>\<open>handle_outliers(data, columns, method, threshold)\<close>: \<open>data\<close> is the address of the
  argument; \<^verbatim>\<open>data.copy()\<close> allocates the copy at the next address, the loop works on the
  copy, and the address of the copy is returned.
\<close>

definition handle_outliers ::
  "heap \<Rightarrow> nat \<Rightarrow> string list \<Rightarrow> string \<Rightarrow> real \<Rightarrow> heap \<times> log_record list \<times> (exn + nat)" where
  "handle_outliers h data columns method threshold =
     (let data_clean = length h;
          h1 = h @ [h ! data]
      in case outlier_loop h1 data_clean columns method threshold of
           (h2, lg, Inl e) \<Rightarrow> (h2, lg, Inl e)
         | (h2, lg, Inr _) \<Rightarrow> (h2, lg, Inr data_clean))"

section \<open>Outlier handling in floating point\<close>

text \<open>
  The definitions above compute in exact arithmetic, which is what the code does as long
  as every number it meets is a double that its operations do not round. Here the same
  function is written with the arithmetic of the machine made explicit. A cell of a
  \<^verbatim>\<open>float64\<close> column is an IEEE double: NaN, an infinity or a finite number. An
  \<^verbatim>\<open>int64\<close> column holds integers, and \<^verbatim>\<open>np.where\<close> with a float bound turns it into a
  \<^verbatim>\<open>float64\<close> column. The comparisons are those of doubles. The operations that round
  are parameters: the quantile of pandas on a float and on an integer column, subtraction,
  addition and multiplication of doubles, and the conversion of an integer to a double.
\<close>

datatype fval = NaN | MInf | Fin real | PInf

fun f_lt :: "fval \<Rightarrow> fval \<Rightarrow> bool" where
  "f_lt MInf (Fin y) = True"
| "f_lt MInf PInf = True"
| "f_lt (Fin x) (Fin y) = (x < y)"
| "f_lt (Fin x) PInf = True"
| "f_lt _ _ = False"

record fp_ops =
  fp_quantile :: "fval list \<Rightarrow> real \<Rightarrow> fval"
  fp_quantile_int :: "int list \<Rightarrow> real \<Rightarrow> fval"
  fp_sub :: "fval \<Rightarrow> fval \<Rightarrow> fval"
  fp_add :: "fval \<Rightarrow> fval \<Rightarrow> fval"
  fp_mul :: "fval \<Rightarrow> fval \<Rightarrow> fval"
  fp_of_int :: "int \<Rightarrow> fval"

datatype fcolumn = F64 "fval list" | I64 "int list" | Obj "string option list"

type_synonym fframe = "(string \<times> fcolumn) list"

type_synonym fheap = "fframe list"



fun set_fcolumn :: "fframe \<Rightarrow> string \<Rightarrow> fcolumn \<Rightarrow> fframe" where
  "set_fcolumn [] c v = [(c, v)]"
| "set_fcolumn ((c', v') # df) c v =
     (if c' = c then (c, v) # df else (c', v') # set_fcolumn df c v)"

fun col_values :: "fp_ops \<Rightarrow> fcolumn \<Rightarrow> fval list" where
  \<comment> \<open>the cells as doubles, as a comparison with a double and \<^verbatim>\<open>np.where\<close> see them\<close>
  "col_values A (F64 xs) = xs"
| "col_values A (I64 xs) = map (fp_of_int A) xs"
| "col_values A (Obj xs) = []"

fun col_quantile :: "fp_ops \<Rightarrow> fcolumn \<Rightarrow> real \<Rightarrow> fval" where
  "col_quantile A (F64 xs) q = fp_quantile A xs q"
| "col_quantile A (I64 xs) q = fp_quantile_int A xs q"
| "col_quantile A (Obj xs) q = NaN"

definition cap_fp :: "fval \<Rightarrow> fval \<Rightarrow> fval \<Rightarrow> fval" where
  "cap_fp lower upper x = (if f_lt x lower then lower else if f_lt upper x then upper else x)"

definition iqr_bounds_fp :: "fp_ops \<Rightarrow> fcolumn \<Rightarrow> fval \<Rightarrow> fval \<times> fval" where
  "iqr_bounds_fp A c threshold =
     (let Q1 = col_quantile A c (1/4);
          Q3 = col_quantile A c (3/4);
          IQR = fp_sub A Q3 Q1;
          lower_bound = fp_sub A Q1 (fp_mul A threshold IQR);
          upper_bound = fp_add A Q3 (fp_mul A threshold IQR)
      in (lower_bound, upper_bound))"

definition cap_column_fp ::
  "fp_ops \<Rightarrow> fheap \<Rightarrow> nat \<Rightarrow> string \<Rightarrow> fval \<Rightarrow> fheap \<times> log_record list \<times> (exn + unit)" where
  "cap_column_fp A h data_clean col threshold =
     (case map_of (h ! data_clean) col of
        None \<Rightarrow> (h, [], Inl (KeyError col))
      | Some (Obj xs) \<Rightarrow>
          (if present xs = [] then (h, [], Inr ()) else (h, [], Inl TypeError))
      | Some c \<Rightarrow>
          (let (lower_bound, upper_bound) = iqr_bounds_fp A c threshold;
               xs = col_values A c;
               outliers = filter (\<lambda>x. f_lt x lower_bound \<or> f_lt upper_bound x) xs;
               lg = (if outliers \<noteq> [] then [Info_outliers (length outliers) col] else []);
               capped = map (cap_fp lower_bound upper_bound) xs
           in (h[data_clean := set_fcolumn (h ! data_clean) col (F64 capped)], lg, Inr ())))"

fun outlier_loop_fp ::
  "fp_ops \<Rightarrow> fheap \<Rightarrow> nat \<Rightarrow> string list \<Rightarrow> string \<Rightarrow> fval
     \<Rightarrow> fheap \<times> log_record list \<times> (exn + unit)" where
  "outlier_loop_fp A h data_clean [] method threshold = (h, [], Inr ())"
| "outlier_loop_fp A h data_clean (col # columns) method threshold =
     (if method = ''iqr'' then
        (case cap_column_fp A h data_clean col threshold of
           (h', lg, Inl e) \<Rightarrow> (h', lg, Inl e)
         | (h', lg, Inr _) \<Rightarrow>
             (case outlier_loop_fp A h' data_clean columns method threshold of
                (h'', lg', r) \<Rightarrow> (h'', lg @ lg', r)))
      else outlier_loop_fp A h data_clean columns method threshold)"

definition handle_outliers_fp ::
  "fp_ops \<Rightarrow> fheap \<Rightarrow> nat \<Rightarrow> string list \<Rightarrow> string \<Rightarrow> fval
     \<Rightarrow> fheap \<times> log_record list \<times> (exn + nat)" where
  "handle_outliers_fp A h data columns method threshold =
     (let data_clean = length h;
          h1 = h @ [h ! data]
      in case outlier_loop_fp A h1 data_clean columns method threshold of
           (h2, lg, Inl e) \<Rightarrow> (h2, lg, Inl e)
         | (h2, lg, Inr _) \<Rightarrow> (h2, lg, Inr data_clean))"

text \<open>
  The arithmetic that does not round, on finite numbers and NaN (an infinity counts as
  NaN in it): with it the function above is the one of the section before, as
  \<open>handle_outliers_fp_exact\<close> below shows.
\<close>

fun of_float :: "float \<Rightarrow> fval" where
  "of_float None = NaN"
| "of_float (Some x) = Fin x"

fun to_float :: "fval \<Rightarrow> float" where
  "to_float (Fin x) = Some x"
| "to_float _ = None"

definition exact_ops :: fp_ops where
  "exact_ops =
     \<lparr>fp_quantile = (\<lambda>xs q. of_float (quantile (map to_float xs) q)),
      fp_quantile_int = (\<lambda>xs q. of_float (quantile (map (\<lambda>x. Some (real_of_int x)) xs) q)),
      fp_sub = (\<lambda>a b. of_float (fsub (to_float a) (to_float b))),
      fp_add = (\<lambda>a b. of_float (fadd (to_float a) (to_float b))),
      fp_mul = (\<lambda>a b. of_float (fmul (to_float a) (to_float b))),
      fp_of_int = (\<lambda>x. Fin (real_of_int x))\<rparr>"

fun fcolumn_of :: "column \<Rightarrow> fcolumn" where
  "fcolumn_of (NumCol xs) = F64 (map of_float xs)"
| "fcolumn_of (StrCol xs) = Obj xs"

definition fframe_of :: "frame \<Rightarrow> fframe" where
  "fframe_of df = map (\<lambda>(c, col). (c, fcolumn_of col)) df"

section \<open>Loading\<close>

text \<open>
  \<^verbatim>\<open>pd.read_csv\<close> is a parameter: from the state of the world (the file system) and a
  path it gives the parsed frame or the exception it raises, and the next state of the
  world. \<^verbatim>\<open>except Exception\<close> catches every exception but those that derive from
  \<^verbatim>\<open>BaseException\<close> only.
\<close>

fun is_Exception :: "exn \<Rightarrow> bool" where
  "is_Exception KeyboardInterrupt = False"
| "is_Exception SystemExit = False"
| "is_Exception _ = True"

definition load_data ::
  "('w \<Rightarrow> string \<Rightarrow> (exn + frame) \<times> 'w) \<Rightarrow> 'w \<Rightarrow> string \<Rightarrow> 'w \<times> log_record list \<times> (exn + frame)" where
  "load_data read_csv w filepath =
     (case read_csv w filepath of
        (Inr data, w') \<Rightarrow>
          (w', [Info_loading filepath, Info_loaded (n_rows data) (length data)], Inr data)
      | (Inl e, w') \<Rightarrow>
          (if is_Exception e
           then (w', [Info_loading filepath, Error_loading e], Inl e)
           else (w', [Info_loading filepath], Inl e)))"

section \<open>Missing values\<close>

fun null_count :: "column \<Rightarrow> nat" where
  "null_count (NumCol xs) = length (filter (\<lambda>x. x = None) xs)"
| "null_count (StrCol xs) = length (filter (\<lambda>x. x = None) xs)"

definition check_missing_values :: "frame \<Rightarrow> (string \<times> nat) list \<times> log_record list" where
  "check_missing_values data =
     (let missing = map (\<lambda>(c, col). (c, null_count col)) data
      in if sum_list (map snd missing) > 0
         then (missing, [Warning_missing (filter (\<lambda>(c, k). k > 0) missing)])
         else (missing, [Info_no_missing]))"

section \<open>Splitter\<close>

text \<open>
  Modelled from the spec: \<^verbatim>\<open>train_test_split\<close> is code of scikit-learn (the requirements
  pin \<^verbatim>\<open>scikit-learn==1.3.0\<close>), which is not under \<^verbatim>\<open>src/\<close>. Section 4.3 of the
  specification gives its contract: from a feature matrix, a label vector, a held-out
  fraction and a random seed it gives disjoint train and test subsets of the features and of
  the labels, sampled by class, and the same seed gives the same subsets. The model below
  follows the stratified shuffle split of that library. The random generator itself (a
  Mersenne twister) is a parameter: a generator state of type \<open>'g\<close>, seeding, a random
  permutation of \<open>0..<n\<close> and a random choice of \<open>k\<close> elements without replacement, each
  returning the next state.
\<close>

record 'g rng_ops =
  rng_seed :: "int \<Rightarrow> 'g"
  rng_permutation :: "'g \<Rightarrow> nat \<Rightarrow> nat list \<times> 'g"
  rng_choice :: "'g \<Rightarrow> nat list \<Rightarrow> nat \<Rightarrow> nat list \<times> 'g"

definition check_random_state :: "'g rng_ops \<Rightarrow> 'g \<Rightarrow> int option \<Rightarrow> 'g" where
  \<comment> \<open>\<^verbatim>\<open>None\<close> is the global generator of numpy, an integer seeds a new generator\<close>
  "check_random_state R global random_state =
     (case random_state of None \<Rightarrow> global | Some s \<Rightarrow> rng_seed R s)"

definition permute :: "'g rng_ops \<Rightarrow> 'g \<Rightarrow> 'a list \<Rightarrow> 'a list \<times> 'g" where
  \<comment> \<open>\<^verbatim>\<open>rng.permutation(xs)\<close> for a sequence: a shuffled copy\<close>
  "permute R g xs =
     (case rng_permutation R g (length xs) of (p, g') \<Rightarrow> (map (\<lambda>j. xs ! j) p, g'))"

text \<open>
  Modelled from the spec: the sizes of the two subsets for a held-out fraction (a float
  \<^verbatim>\<open>test_size\<close>, no \<^verbatim>\<open>train_size\<close>). The fraction must lie strictly between 0 and 1;
  the test size is the fraction of the rows rounded up, the training size is the rest, and
  an empty training set is refused.
\<close>

definition validate_shuffle_split :: "nat \<Rightarrow> real \<Rightarrow> exn + (nat \<times> nat)" where
  "validate_shuffle_split n_samples test_size =
     (if test_size \<le> 0 \<or> test_size \<ge> 1 then Inl ValueError
      else
        (let n_test = nat \<lceil>test_size * real n_samples\<rceil>;
             n_train = n_samples - n_test
         in if n_train = 0 then Inl ValueError else Inr (n_train, n_test)))"

text \<open>
  Modelled from the spec: sampling by class. The number of rows to draw from each class is
  the class count scaled to the number of draws and rounded down; the draws still missing
  go one each to the classes with the largest remainders, ties being broken by a random
  choice. \<open>floored[inds] += 1\<close> reads the counts before the update.
\<close>

fun add_loop ::
  "'g rng_ops \<Rightarrow> real list \<Rightarrow> real list \<Rightarrow> int list \<Rightarrow> int \<Rightarrow> 'g \<Rightarrow> int list \<times> 'g" where
  "add_loop R remainder [] floored need_to_add g = (floored, g)"
| "add_loop R remainder (v # vs) floored need_to_add g =
     (let inds = filter (\<lambda>i. remainder ! i = v) [0..<length remainder];
          add_now = min (int (length inds)) need_to_add
      in case rng_choice R g inds (nat add_now) of
           (chosen, g') \<Rightarrow>
             (let floored' = fold (\<lambda>i fl. fl[i := floored ! i + 1]) chosen floored;
                  need' = need_to_add - add_now
              in if need' = 0 then (floored', g')
                 else add_loop R remainder vs floored' need' g'))"

definition approximate_mode :: "'g rng_ops \<Rightarrow> int list \<Rightarrow> nat \<Rightarrow> 'g \<Rightarrow> int list \<times> 'g" where
  \<comment> \<open>the divisor, the sum of the counts, is positive at both calls below\<close>
  "approximate_mode R class_counts n_draws g =
     (let continuous = map (\<lambda>c. real_of_int c / real_of_int (sum_list class_counts) * real n_draws)
                           class_counts;
          floored = map (\<lambda>x. \<lfloor>x\<rfloor>) continuous;
          need_to_add = int n_draws - sum_list floored
      in if need_to_add > 0
         then
           (let remainder = map (\<lambda>x. x - real_of_int \<lfloor>x\<rfloor>) continuous;
                vs = rev (sort (remdups remainder))
            in add_loop R remainder vs floored need_to_add g)
         else (floored, g))"

text \<open>Python slices \<^verbatim>\<open>xs[a:b]\<close> with integer bounds.\<close>

definition py_bound :: "nat \<Rightarrow> int \<Rightarrow> nat" where
  \<comment> \<open>a slice bound: negative bounds count from the end, all are clipped to the length\<close>
  "py_bound n i = (if i < 0 then nat (max 0 (int n + i)) else min (nat i) n)"

definition py_slice :: "'a list \<Rightarrow> int \<Rightarrow> int \<Rightarrow> 'a list" where
  "py_slice xs a b =
     (let lo = py_bound (length xs) a; hi = py_bound (length xs) b
      in take (hi - lo) (drop lo xs))"

text \<open>
  Modelled from the spec: the stratified shuffle split. The classes are the sorted distinct
  labels; a class with fewer than two members, or fewer training or test rows than classes,
  is refused. For each class, with its count, the row positions that hold it, the number
  \<open>n\<close> of training rows and the number \<open>t\<close> of test rows, the positions are permuted,
  the first \<open>n\<close> go to the training positions and the next \<open>t\<close> to the test positions.
  Both lists are permuted once more at the end.
\<close>

fun class_loop ::
  "'g rng_ops \<Rightarrow> (int \<times> nat list \<times> int \<times> int) list \<Rightarrow> nat list \<Rightarrow> nat list \<Rightarrow> 'g
     \<Rightarrow> nat list \<times> nat list \<times> 'g" where
  "class_loop R [] train test g = (train, test, g)"
| "class_loop R ((class_count, indices, n, t) # rest) train test g =
     (case rng_permutation R g (nat class_count) of
        (permutation, g') \<Rightarrow>
          (let perm_indices_class_i = map (\<lambda>p. indices ! min p (length indices - 1)) permutation
           in class_loop R rest
                (train @ py_slice perm_indices_class_i 0 n)
                (test @ py_slice perm_indices_class_i n (n + t)) g'))"

definition stratified_indices ::
  "'g rng_ops \<Rightarrow> 'g \<Rightarrow> ('a::linorder) list \<Rightarrow> nat \<Rightarrow> nat \<Rightarrow> (exn + (nat list \<times> nat list)) \<times> 'g" where
  "stratified_indices R g y n_train n_test =
     (let classes = sort (remdups y);
          n_classes = length classes;
          class_counts = map (\<lambda>c. int (count_list y c)) classes
      in if list_ex (\<lambda>c. c < 2) class_counts then (Inl ValueError, g)
         else if n_train < n_classes then (Inl ValueError, g)
         else if n_test < n_classes then (Inl ValueError, g)
         else
           (let class_indices = map (\<lambda>c. filter (\<lambda>i. y ! i = c) [0..<length y]) classes
            in case approximate_mode R class_counts n_train g of
                 (n_i, g1) \<Rightarrow>
                   (let class_counts_remaining = map2 (\<lambda>c n. c - n) class_counts n_i
                    in case approximate_mode R class_counts_remaining n_test g1 of
                         (t_i, g2) \<Rightarrow>
                           (case class_loop R (zip class_counts (zip class_indices (zip n_i t_i)))
                                   [] [] g2 of
                              (train, test, g3) \<Rightarrow>
                                (case permute R g3 train of
                                   (train', g4) \<Rightarrow>
                                     (case permute R g4 test of
                                        (test', g5) \<Rightarrow> (Inr (train', test'), g5)))))))"

text \<open>
  Modelled from the spec: the positions of the training and test rows for a label column
  and a held-out fraction. The number of rows is the number of labels, and labels with a
  missing value are refused.
\<close>

definition split_indices ::
  "'g rng_ops \<Rightarrow> 'g \<Rightarrow> column \<Rightarrow> real \<Rightarrow> (exn + (nat list \<times> nat list)) \<times> 'g" where
  "split_indices R g y test_size =
     (case validate_shuffle_split (col_len y) test_size of
        Inl e \<Rightarrow> (Inl e, g)
      | Inr (n_train, n_test) \<Rightarrow>
          (case y of
             NumCol ys \<Rightarrow>
               if list_ex (\<lambda>x. x = None) ys then (Inl ValueError, g)
               else stratified_indices R g (map the ys) n_train n_test
           | StrCol ys \<Rightarrow>
               if list_ex (\<lambda>x. x = None) ys then (Inl ValueError, g)
               else stratified_indices R g (map the ys) n_train n_test))"

fun col_take :: "column \<Rightarrow> nat list \<Rightarrow> column" where
  \<comment> \<open>\<^verbatim>\<open>.iloc[indices]\<close>; the indices come from the split and are in range\<close>
  "col_take (NumCol xs) idx = NumCol (map (\<lambda>i. xs ! i) idx)"
| "col_take (StrCol xs) idx = StrCol (map (\<lambda>i. xs ! i) idx)"

definition take_rows :: "frame \<Rightarrow> nat list \<Rightarrow> frame" where
  "take_rows df idx = map (\<lambda>(c, col). (c, col_take col idx)) df"

text \<open>
  Modelled from the spec: \<^verbatim>\<open>train_test_split(X, y, test_size=.., random_state=..,
  stratify=y)\<close>. The features and the labels are taken at the same positions. The second
  component of the result is the global generator after the call: it moves only when no
  seed is given.
\<close>

definition train_test_split ::
  "'g rng_ops \<Rightarrow> 'g \<Rightarrow> frame \<Rightarrow> column \<Rightarrow> real \<Rightarrow> int option
     \<Rightarrow> (exn + (frame \<times> frame \<times> column \<times> column)) \<times> 'g" where
  "train_test_split R global X y test_size random_state =
     (case split_indices R (check_random_state R global random_state) y test_size of
        (r, g') \<Rightarrow>
          (case r of
             Inl e \<Rightarrow> Inl e
           | Inr (train, test) \<Rightarrow>
               Inr (take_rows X train, take_rows X test, col_take y train, col_take y test),
           case random_state of None \<Rightarrow> g' | Some s \<Rightarrow> global))"

section \<open>Scaler\<close>

text \<open>
  Modelled from the spec: \<^verbatim>\<open>StandardScaler\<close> is code of scikit-learn, which is not under
  \<^verbatim>\<open>src/\<close>. Section 4.4 of the specification: fit computes the mean and the standard
  deviation of each feature, transform applies \<open>(x - mean) / std\<close> to any feature matrix,
  and transform before fit is rejected. As in the library, missing values are left out of
  the statistics and stay missing, the variance is the population variance, and a frame is
  accepted when it has a row, a column, no string column, and (in transform) the column
  names seen by fit. A feature that the library takes for constant is scaled by one: that
  is a feature whose variance is at most \<open>n * eps * var + (n * mean * eps)\<^sup>2\<close>, for the
  \<open>n\<close> values it has and the machine epsilon \<open>eps = 2\<^sup>-\<^sup>5\<^sup>2\<close> of a double, so a
  variance of zero and also a variance that is small against the mean. The statistics
  themselves are in exact arithmetic. A string column is taken to hold a string that is
  no number.
\<close>

record scaler_params =
  fitted_names :: "string list"
  fitted_mean :: "float list"
  fitted_var :: "float list"
  fitted_scale :: "float list"

type_synonym scaler = "scaler_params option"

definition col_mean :: "float list \<Rightarrow> float" where
  "col_mean xs =
     (let v = present xs in if v = [] then None else Some (sum_list v / real (length v)))"

definition col_var :: "float list \<Rightarrow> float" where
  "col_var xs =
     (let v = present xs
      in if v = [] then None
         else (let m = sum_list v / real (length v)
               in Some (sum_list (map (\<lambda>x. (x - m)\<^sup>2) v) / real (length v))))"

definition float_eps :: real where
  \<comment> \<open>\<^verbatim>\<open>np.finfo(np.float64).eps\<close>\<close>
  "float_eps = 1 / 2 ^ 52"

definition is_constant_feature :: "real \<Rightarrow> real \<Rightarrow> nat \<Rightarrow> bool" where
  "is_constant_feature var mean n_samples =
     (var \<le> real n_samples * float_eps * var + (real n_samples * mean * float_eps)\<^sup>2)"

definition col_scale :: "float list \<Rightarrow> float" where
  "col_scale xs =
     (case (col_var xs, col_mean xs) of
        (Some v, Some m) \<Rightarrow>
          if is_constant_feature v m (length (present xs)) then Some 1 else Some (sqrt v)
      | _ \<Rightarrow> None)"

fun is_StrCol :: "column \<Rightarrow> bool" where
  "is_StrCol (StrCol _) = True"
| "is_StrCol (NumCol _) = False"

fun num_values :: "column \<Rightarrow> float list" where
  "num_values (NumCol xs) = xs"
| "num_values (StrCol xs) = []"

text \<open>Modelled from the spec: the input check of fit and of transform.\<close>

definition check_array :: "frame \<Rightarrow> exn + float list list" where
  "check_array X =
     (if list_ex (\<lambda>(c, col). is_StrCol col) X then Inl ValueError
      else if X = [] \<or> n_rows X = 0 then Inl ValueError
      else Inr (map (\<lambda>(c, col). num_values col) X))"

text \<open>
  Modelled from the spec: fit computes the statistics of each feature from the frame it is
  given; a fit that fails leaves the scaler without fitted state.
\<close>

definition fit :: "scaler \<Rightarrow> frame \<Rightarrow> scaler \<times> (exn + unit)" where
  "fit s X =
     (case check_array X of
        Inl e \<Rightarrow> (None, Inl e)
      | Inr M \<Rightarrow>
          (Some \<lparr>fitted_names = map fst X, fitted_mean = map col_mean M, fitted_var = map col_var M,
                 fitted_scale = map col_scale M\<rparr>, Inr ()))"

text \<open>
  Modelled from the spec: transform returns the scaler as it was (it only reads the fitted
  state) and the scaled matrix, column by column.
\<close>

definition scale_column :: "float \<Rightarrow> float \<Rightarrow> float list \<Rightarrow> float list" where
  "scale_column m sc xs = map (\<lambda>x. fdiv (fsub x m) sc) xs"

definition transform :: "scaler \<Rightarrow> frame \<Rightarrow> scaler \<times> (exn + float list list)" where
  "transform s X =
     (case s of
        None \<Rightarrow> (s, Inl NotFittedError)
      | Some p \<Rightarrow>
          (case check_array X of
             Inl e \<Rightarrow> (s, Inl e)
           | Inr M \<Rightarrow>
               if map fst X \<noteq> fitted_names p then (s, Inl ValueError)
               else (s, Inr (map (\<lambda>(xs, m, sc). scale_column m sc xs)
                                 (zip M (zip (fitted_mean p) (fitted_scale p)))))))"

definition fit_transform :: "scaler \<Rightarrow> frame \<Rightarrow> scaler \<times> (exn + float list list)" where
  "fit_transform s X =
     (case fit s X of
        (s', Inl e) \<Rightarrow> (s', Inl e)
      | (s', Inr _) \<Rightarrow> transform s' X)"

section \<open>Preprocessing\<close>

text \<open>The tuple that \<^verbatim>\<open>preprocess_data\<close> returns.\<close>

record outputs =
  out_X_train_scaled :: "float list list"
  out_X_test_scaled :: "float list list"
  out_y_train :: column
  out_y_test :: column
  out_scaler :: scaler

fun is_NumCol :: "column \<Rightarrow> bool" where
  "is_NumCol (NumCol _) = True"
| "is_NumCol (StrCol _) = False"

definition drop_columns :: "frame \<Rightarrow> string list \<Rightarrow> exn + frame" where
  \<comment> \<open>\<^verbatim>\<open>data.drop(columns=labels)\<close> raises \<^verbatim>\<open>KeyError\<close> for a label that is absent\<close>
  "drop_columns data labels =
     (case filter (\<lambda>l. l \<notin> set (map fst data)) labels of
        [] \<Rightarrow> Inr (filter (\<lambda>(c, col). c \<notin> set labels) data)
      | l # _ \<Rightarrow> Inl (KeyError l))"

text \<open>
  The first part of \<^verbatim>\<open>preprocess_data\<close>, up to the split and its log record: the
  features \<open>X\<close> are a new frame without the target and \<^verbatim>\<open>customer_id\<close>, the labels
  \<open>y\<close> are the target column, the numeric features go through \<^verbatim>\<open>handle_outliers\<close> with
  its default method and threshold, and the result is split.
\<close>

definition split_data ::
  "'g rng_ops \<Rightarrow> 'g \<Rightarrow> heap \<Rightarrow> nat \<Rightarrow> string \<Rightarrow> real \<Rightarrow> int option
     \<Rightarrow> heap \<times> 'g \<times> log_record list \<times> (exn + (frame \<times> frame \<times> column \<times> column))" where
  "split_data R global h data target_col test_size random_state =
     (let lg0 = Info_start # snd (check_missing_values (h ! data))
      in case drop_columns (h ! data) [target_col, ''customer_id''] of
           Inl e \<Rightarrow> (h, global, lg0, Inl e)
         | Inr X0 \<Rightarrow>
             (case map_of (h ! data) target_col of
                None \<Rightarrow> (h @ [X0], global, lg0, Inl (KeyError target_col))
              | Some y \<Rightarrow>
                  (let lg1 = lg0 @ [Info_shapes (n_rows X0) (length X0) (col_len y)];
                       numerical_cols = map fst (filter (\<lambda>(c, col). is_NumCol col) X0)
                   in case handle_outliers (h @ [X0]) (length h) numerical_cols ''iqr'' (3/2) of
                        (h2, lg2, Inl e) \<Rightarrow> (h2, global, lg1 @ lg2, Inl e)
                      | (h2, lg2, Inr X) \<Rightarrow>
                          (case train_test_split R global (h2 ! X) y test_size random_state of
                             (Inl e, global') \<Rightarrow> (h2, global', lg1 @ lg2, Inl e)
                           | (Inr (X_train, X_test, y_train, y_test), global') \<Rightarrow>
                               (h2, global',
                                lg1 @ lg2 @ [Info_split (n_rows X_train) (length X_train)
                                               (n_rows X_test) (length X_test)],
                                Inr (X_train, X_test, y_train, y_test))))))"

text \<open>The whole of \<^verbatim>\<open>preprocess_data\<close>: the part above, then the scaling.\<close>

definition preprocess_data ::
  "'g rng_ops \<Rightarrow> 'g \<Rightarrow> heap \<Rightarrow> nat \<Rightarrow> string \<Rightarrow> real \<Rightarrow> int option
     \<Rightarrow> heap \<times> 'g \<times> log_record list \<times> (exn + outputs)" where
  "preprocess_data R global h data target_col test_size random_state =
     (case split_data R global h data target_col test_size random_state of
        (h2, global', lg, Inl e) \<Rightarrow> (h2, global', lg, Inl e)
      | (h2, global', lg, Inr (X_train, X_test, y_train, y_test)) \<Rightarrow>
          (case fit_transform None X_train of
             (scaler, Inl e) \<Rightarrow> (h2, global', lg, Inl e)
           | (scaler, Inr X_train_scaled) \<Rightarrow>
               (case transform scaler X_test of
                  (scaler', Inl e) \<Rightarrow> (h2, global', lg, Inl e)
                | (scaler', Inr X_test_scaled) \<Rightarrow>
                    (h2, global', lg @ [Info_done],
                     Inr \<lparr>out_X_train_scaled = X_train_scaled,
                           out_X_test_scaled = X_test_scaled,
                           out_y_train = y_train,
                           out_y_test = y_test,
                           out_scaler = scaler'\<rparr>))))"

section \<open>Notions used in the statements\<close>

definition fle :: "float \<Rightarrow> float \<Rightarrow> bool" where
  \<comment> \<open>\<open>\<le>\<close> on floats; false when a side is NaN\<close>
  "fle a b = (case (a, b) of (Some x, Some y) \<Rightarrow> x \<le> y | _ \<Rightarrow> False)"

definition all_within :: "float \<Rightarrow> float \<Rightarrow> float list \<Rightarrow> bool" where
  \<comment> \<open>every value that is not missing lies between the bounds\<close>
  "all_within lo up ys = (\<forall>y \<in> set ys. y \<noteq> None \<longrightarrow> fle lo y \<and> fle y up)"

definition shape :: "frame \<Rightarrow> (string \<times> nat) list" where
  \<comment> \<open>the column names with the column lengths\<close>
  "shape df = map (\<lambda>(c, col). (c, col_len col)) df"




definition rng_ok :: "'g rng_ops \<Rightarrow> bool" where
  \<comment> \<open>what the generator promises: a permutation of \<open>0..<n\<close> is one, and a choice of \<open>k\<close>
      among distinct elements without replacement gives \<open>k\<close> distinct ones of them\<close>
  "rng_ok R =
     ((\<forall>g n. mset (fst (rng_permutation R g n)) = mset [0..<n]) \<and>
      (\<forall>g inds k. k \<le> length inds \<and> distinct inds \<longrightarrow>
         distinct (fst (rng_choice R g inds k)) \<and>
         set (fst (rng_choice R g inds k)) \<subseteq> set inds \<and>
         length (fst (rng_choice R g inds k)) = k))"


text \<open>
  A generator for examples: its permutation is the identity and it chooses the first
  elements. And a data set of six customers, three of each class.
\<close>

definition example_rng :: "unit rng_ops" where
  "example_rng =
     \<lparr>rng_seed = (\<lambda>s. ()),
      rng_permutation = (\<lambda>g n. ([0..<n], g)),
      rng_choice = (\<lambda>g inds k. (take k inds, g))\<rparr>"

definition flip_rng :: "bool rng_ops" where
  \<comment> \<open>a generator whose permutation depends on its state\<close>
  "flip_rng =
     \<lparr>rng_seed = (\<lambda>s. True),
      rng_permutation = (\<lambda>g n. (if g then [0..<n] else rev [0..<n], \<not> g)),
      rng_choice = (\<lambda>g inds k. (take k inds, g))\<rparr>"

definition example_data :: frame where
  "example_data =
     [(''customer_id'', NumCol [Some 1, Some 2, Some 3, Some 4, Some 5, Some 6]),
      (''income'', NumCol [Some 1, Some 3, Some 2, Some 1, Some 3, Some 5]),
      (''default'', NumCol [Some 0, Some 0, Some 0, Some 1, Some 1, Some 1])]"


section \<open>Properties of outlier handling\<close>

subsection \<open>Quantiles and capping\<close>

lemma lerp_sorted_bounds:
  assumes "sorted xs" "xs \<noteq> []" "0 \<le> pos" "pos \<le> real (length xs - 1)"
  shows "xs ! nat \<lfloor>pos\<rfloor> \<le> lerp_sorted xs pos"
    and "lerp_sorted xs pos \<le> xs ! min (nat \<lfloor>pos\<rfloor> + 1) (length xs - 1)"
    and "nat \<lfloor>pos\<rfloor> < length xs"
proof -
  let ?lo = "nat \<lfloor>pos\<rfloor>"
  let ?hi = "min (?lo + 1) (length xs - 1)"
  let ?g = "pos - real_of_int \<lfloor>pos\<rfloor>"
  have n: "0 < length xs" using assms(2) by simp
  have "\<lfloor>pos\<rfloor> \<le> int (length xs - 1)" using assms(4) by (simp add: floor_le_iff)
  then have lo: "?lo \<le> length xs - 1" using assms(3) by linarith
  then show lt: "?lo < length xs" using n by linarith
  have hi: "?hi < length xs" using n by linarith
  have "?lo \<le> ?hi" using lo by simp
  then have le: "xs ! ?lo \<le> xs ! ?hi"
    using assms(1) hi by (simp add: sorted_nth_mono)
  have g: "0 \<le> ?g" "?g \<le> 1" by linarith+
  define a where "a = xs ! ?lo"
  define b where "b = xs ! ?hi"
  have eq: "lerp_sorted xs pos = a + (b - a) * ?g"
    by (simp add: lerp_sorted_def Let_def a_def b_def)
  have ab: "a \<le> b" using le by (simp add: a_def b_def)
  have "0 \<le> (b - a) * ?g" using ab g by simp
  then show "xs ! ?lo \<le> lerp_sorted xs pos" using eq a_def by linarith
  have "(b - a) * ?g \<le> (b - a) * 1"
    using ab g by (intro mult_left_mono) auto
  then have "lerp_sorted xs pos \<le> b" using eq by simp
  then show "lerp_sorted xs pos \<le> xs ! ?hi" by (simp add: b_def)
qed

lemma lerp_sorted_mono:
  assumes "sorted xs" "xs \<noteq> []" "0 \<le> pos" "pos \<le> pos'" "pos' \<le> real (length xs - 1)"
  shows "lerp_sorted xs pos \<le> lerp_sorted xs pos'"
proof (cases "\<lfloor>pos\<rfloor> = \<lfloor>pos'\<rfloor>")
  case True
  let ?lo = "nat \<lfloor>pos\<rfloor>"
  let ?hi = "min (?lo + 1) (length xs - 1)"
  have n: "0 < length xs" using assms(2) by simp
  have lo: "?lo < length xs" using lerp_sorted_bounds(3)[OF assms(1,2,3)] assms(4,5) by simp
  have "xs ! ?lo \<le> xs ! ?hi"
    using assms(1) n lo by (intro sorted_nth_mono) auto
  then have "(xs ! ?hi - xs ! ?lo) * (pos - real_of_int \<lfloor>pos\<rfloor>)
      \<le> (xs ! ?hi - xs ! ?lo) * (pos' - real_of_int \<lfloor>pos\<rfloor>)"
    using assms(4) by (intro mult_left_mono) auto
  then show ?thesis using True by (simp add: lerp_sorted_def Let_def)
next
  case False
  have p': "0 \<le> pos'" using assms by linarith
  have "\<lfloor>pos\<rfloor> \<le> \<lfloor>pos'\<rfloor>" using assms(4) by (rule floor_mono)
  then have lt: "\<lfloor>pos\<rfloor> < \<lfloor>pos'\<rfloor>" using False by linarith
  have lo': "nat \<lfloor>pos'\<rfloor> < length xs"
    using lerp_sorted_bounds(3)[OF assms(1,2) p' assms(5)] .
  have "0 \<le> \<lfloor>pos\<rfloor>" using assms(3) by simp
  then have "nat \<lfloor>pos\<rfloor> + 1 \<le> nat \<lfloor>pos'\<rfloor>" using lt by linarith
  then have hi: "min (nat \<lfloor>pos\<rfloor> + 1) (length xs - 1) \<le> nat \<lfloor>pos'\<rfloor>" by simp
  have "lerp_sorted xs pos \<le> xs ! min (nat \<lfloor>pos\<rfloor> + 1) (length xs - 1)"
    using lerp_sorted_bounds(2)[OF assms(1,2,3)] assms(4,5) by simp
  also have "\<dots> \<le> xs ! nat \<lfloor>pos'\<rfloor>"
    using assms(1) hi lo' by (rule sorted_nth_mono)
  also have "\<dots> \<le> lerp_sorted xs pos'"
    using lerp_sorted_bounds(1)[OF assms(1,2) p' assms(5)] .
  finally show ?thesis .
qed

lemma present_set: "set (present xs) = {v. Some v \<in> set xs}"
  by (induction xs rule: present.induct) auto

lemma present_Nil_iff: "present xs = [] \<longleftrightarrow> (\<forall>x \<in> set xs. x = None)"
  by (induction xs rule: present.induct) auto

lemma sort_Nil_iff [simp]: "sort xs = [] \<longleftrightarrow> xs = []"
  by (metis length_0_conv length_sort)

lemma quantile_None: "present xs = [] \<Longrightarrow> quantile xs q = None"
  by (simp add: quantile_def)

lemma quantile_between:
  assumes "present xs \<noteq> []" "0 \<le> q" "q \<le> 1"
  shows "\<exists>a b v. quantile xs q = Some v \<and> Some a \<in> set xs \<and> Some b \<in> set xs \<and> a \<le> v \<and> v \<le> b"
proof -
  define s where "s = sort (present xs)"
  define pos where "pos = real (length s - 1) * q"
  have s: "sorted s" "s \<noteq> []" "set s = {v. Some v \<in> set xs}"
    using assms(1) by (auto simp: s_def present_set)
  have p: "0 \<le> pos" "pos \<le> real (length s - 1)"
    using assms(2,3) by (auto simp: pos_def mult_left_le)
  have q: "quantile xs q = Some (lerp_sorted s pos)"
    using s(2) by (simp add: quantile_def s_def pos_def Let_def)
  have lo: "nat \<lfloor>pos\<rfloor> < length s" using lerp_sorted_bounds(3)[OF s(1,2) p] .
  have hi: "min (nat \<lfloor>pos\<rfloor> + 1) (length s - 1) < length s" using s(2) lo by linarith
  have "s ! nat \<lfloor>pos\<rfloor> \<in> set s" "s ! min (nat \<lfloor>pos\<rfloor> + 1) (length s - 1) \<in> set s"
    using lo hi by (auto intro: nth_mem)
  then show ?thesis
    using q lerp_sorted_bounds(1,2)[OF s(1,2) p] s(3) by blast
qed

lemma quantile_quartiles:
  assumes "present xs \<noteq> []"
  shows "\<exists>q1 q3. quantile xs (1/4) = Some q1 \<and> quantile xs (3/4) = Some q3 \<and> q1 \<le> q3"
proof -
  define s where "s = sort (present xs)"
  have s: "sorted s" "s \<noteq> []" using assms by (auto simp: s_def)
  have "lerp_sorted s (real (length s - 1) * (1/4)) \<le> lerp_sorted s (real (length s - 1) * (3/4))"
    by (rule lerp_sorted_mono[OF s]) auto
  then show ?thesis using s(2) by (simp add: quantile_def s_def Let_def)
qed

lemma cap_None [simp]: "cap lo up None = None"
  by (simp add: cap_def flt_def fgt_def)

lemma cap_Some:
  "cap (Some L) (Some U) (Some v) = Some (if v < L then L else if v > U then U else v)"
  by (simp add: cap_def flt_def fgt_def)

lemma iqr_bounds_None:
  "present xs = [] \<Longrightarrow> iqr_bounds xs k = (None, None)"
  by (simp add: iqr_bounds_def quantile_None fsub_def fadd_def fmul_def)

lemma iqr_bounds_Some:
  assumes "present xs \<noteq> []"
  shows "\<exists>q1 q3. quantile xs (1/4) = Some q1 \<and> quantile xs (3/4) = Some q3 \<and> q1 \<le> q3 \<and>
           iqr_bounds xs k = (Some (q1 - k * (q3 - q1)), Some (q3 + k * (q3 - q1)))"
  using quantile_quartiles[OF assms]
  by (auto simp: iqr_bounds_def fsub_def fadd_def fmul_def)

lemma cap_establishes_within:
  assumes "- 1/2 \<le> k" "iqr_bounds xs k = (lo, up)"
  shows "all_within lo up (map (cap lo up) xs)"
proof (cases "present xs = []")
  case True
  then show ?thesis by (auto simp: all_within_def present_Nil_iff)
next
  case False
  from iqr_bounds_Some[OF False, of k] assms(2) obtain q1 q3 where
    q: "q1 \<le> q3" "lo = Some (q1 - k * (q3 - q1))" "up = Some (q3 + k * (q3 - q1))"
    by auto
  have "0 \<le> (1 + 2 * k) * (q3 - q1)" using assms(1) q(1) by simp
  then have le: "q1 - k * (q3 - q1) \<le> q3 + k * (q3 - q1)" by (simp add: algebra_simps)
  show ?thesis
    unfolding all_within_def q
  proof (intro ballI impI)
    fix y assume "y \<in> set (map (cap (Some (q1 - k * (q3 - q1))) (Some (q3 + k * (q3 - q1)))) xs)" "y \<noteq> None"
    then obtain x where x: "x \<in> set xs" "y = cap (Some (q1 - k * (q3 - q1))) (Some (q3 + k * (q3 - q1))) x"
      by auto
    with \<open>y \<noteq> None\<close> obtain v where "x = Some v" by (cases x) auto
    then show "fle (Some (q1 - k * (q3 - q1))) y \<and> fle y (Some (q3 + k * (q3 - q1)))"
      using x(2) le by (simp add: cap_Some fle_def)
  qed
qed

lemma cap_preserves_within:
  assumes "- 1/2 \<le> k" "all_within lo up ys" "iqr_bounds ys k = (lo', up')"
  shows "all_within lo up (map (cap lo' up') ys)"
proof (cases "present ys = []")
  case True
  then show ?thesis by (auto simp: all_within_def present_Nil_iff)
next
  case False
  then obtain w where w: "Some w \<in> set ys" by (auto simp: present_Nil_iff)
  with assms(2) obtain L U where LU: "lo = Some L" "up = Some U"
    by (cases lo; cases up) (auto simp: all_within_def fle_def)
  have inside: "\<And>v. Some v \<in> set ys \<Longrightarrow> L \<le> v \<and> v \<le> U"
    using assms(2) by (force simp: all_within_def fle_def LU)
  from iqr_bounds_Some[OF False, of k] assms(3) obtain q1 q3 where
    q: "quantile ys (1/4) = Some q1" "quantile ys (3/4) = Some q3" "q1 \<le> q3"
       "lo' = Some (q1 - k * (q3 - q1))" "up' = Some (q3 + k * (q3 - q1))"
    by auto
  from quantile_between[OF False, of "1/4"] q(1) inside have q1: "L \<le> q1" "q1 \<le> U"
    by (auto intro: order_trans)
  from quantile_between[OF False, of "3/4"] q(2) inside have q3: "L \<le> q3" "q3 \<le> U"
    by (auto intro: order_trans)
  define d where "d = k * (q3 - q1)"
  have "0 \<le> (1 + 2 * k) * (q3 - q1)" using assms(1) q(3) by simp
  then have "0 \<le> (q3 - q1) + 2 * d" by (simp add: d_def algebra_simps)
  then have "q1 - d \<le> U \<and> L \<le> q3 + d" using q1 q3 by auto
  then have lo'U: "q1 - k * (q3 - q1) \<le> U" and up'L: "L \<le> q3 + k * (q3 - q1)"
    by (simp_all add: d_def)
  show ?thesis
    unfolding all_within_def
  proof (intro ballI impI)
    fix y assume "y \<in> set (map (cap lo' up') ys)" "y \<noteq> None"
    then obtain x where x: "x \<in> set ys" "y = cap lo' up' x" by auto
    with \<open>y \<noteq> None\<close> obtain v where v: "x = Some v" by (cases x) auto
    with x(1) inside have "L \<le> v" "v \<le> U" by auto
    then show "fle lo y \<and> fle y up"
      using x(2) v lo'U up'L by (simp add: q(4,5) cap_Some fle_def LU)
  qed
qed

subsection \<open>The loop and the store\<close>

lemma map_of_set_column:
  "map_of (set_column df c v) c' = (if c' = c then Some v else map_of df c')"
  by (induction df) auto

lemma shape_set_column:
  "map_of df c = Some v0 \<Longrightarrow> col_len v = col_len v0 \<Longrightarrow> shape (set_column df c v) = shape df"
  by (induction df) (auto simp: shape_def)

lemma n_rows_shape: "shape df = shape df' \<Longrightarrow> n_rows df = n_rows df'"
  by (cases df; cases df') (auto simp: shape_def n_rows_def)

lemma cap_column_Inr:
  assumes "cap_column h a col k = (h', lg, Inr u)" "map_of (h ! a) col = Some (NumCol xs)"
  shows "\<exists>lo up. iqr_bounds xs k = (lo, up) \<and>
           h' = h[a := set_column (h ! a) col (NumCol (map (cap lo up) xs))]"
  using assms
  by (auto simp: cap_column_def Let_def split: prod.splits)

lemma cap_column_heap:
  assumes "cap_column h a col k = (h', lg, r)"
  shows "length h' = length h \<and> (\<forall>b. b \<noteq> a \<longrightarrow> h' ! b = h ! b)"
  using assms
  by (auto simp: cap_column_def Let_def
      split: option.splits column.splits prod.splits if_splits)

lemma cap_column_other:
  assumes "cap_column h a col k = (h', lg, r)" "c \<noteq> col"
  shows "map_of (h' ! a) c = map_of (h ! a) c"
proof (cases "a < length h")
  case True
  then show ?thesis using assms
    by (auto simp: cap_column_def Let_def map_of_set_column
        split: option.splits column.splits prod.splits if_splits)
next
  case False
  then show ?thesis using assms
    by (auto simp: cap_column_def Let_def list_update_beyond
        split: option.splits column.splits prod.splits if_splits)
qed

lemma cap_column_shape:
  assumes "cap_column h a col k = (h', lg, r)"
  shows "shape (h' ! a) = shape (h ! a)"
proof (cases "a < length h")
  case True
  then show ?thesis using assms
    by (auto simp: cap_column_def Let_def shape_set_column
        split: option.splits column.splits prod.splits if_splits)
next
  case False
  then show ?thesis using assms
    by (auto simp: cap_column_def Let_def list_update_beyond
        split: option.splits column.splits prod.splits if_splits)
qed

lemma outlier_loop_heap:
  "outlier_loop h a columns method k = (h', lg, r) \<Longrightarrow>
   length h' = length h \<and> (\<forall>b. b \<noteq> a \<longrightarrow> h' ! b = h ! b)"
proof (induction columns arbitrary: h lg)
  case Nil
  then show ?case by simp
next
  case (Cons col columns)
  show ?case
  proof (cases "method = ''iqr''")
    case False
    with Cons show ?thesis by simp
  next
    case True
    obtain h1 lg1 r1 where c: "cap_column h a col k = (h1, lg1, r1)" by (cases "cap_column h a col k")
    show ?thesis
    proof (cases r1)
      case (Inl e)
      with Cons.prems True c cap_column_heap[OF c] show ?thesis by auto
    next
      case (Inr u)
      obtain h2 lg2 r2 where l: "outlier_loop h1 a columns method k = (h2, lg2, r2)"
        by (cases "outlier_loop h1 a columns method k")
      with Cons.prems True c Inr have e: "h2 = h'" "r2 = r" by auto
      from Cons.IH[OF l[unfolded e]] cap_column_heap[OF c] show ?thesis by auto
    qed
  qed
qed

lemma outlier_loop_other:
  "outlier_loop h a columns method k = (h', lg, r) \<Longrightarrow> c \<notin> set columns \<Longrightarrow>
   map_of (h' ! a) c = map_of (h ! a) c"
proof (induction columns arbitrary: h lg)
  case Nil
  then show ?case by simp
next
  case (Cons col columns)
  show ?case
  proof (cases "method = ''iqr''")
    case False
    with Cons show ?thesis by simp
  next
    case True
    obtain h1 lg1 r1 where c: "cap_column h a col k = (h1, lg1, r1)" by (cases "cap_column h a col k")
    from Cons.prems(2) have ne: "c \<noteq> col" "c \<notin> set columns" by auto
    show ?thesis
    proof (cases r1)
      case (Inl e)
      with Cons.prems True c cap_column_other[OF c ne(1)] show ?thesis by auto
    next
      case (Inr u)
      obtain h2 lg2 r2 where l: "outlier_loop h1 a columns method k = (h2, lg2, r2)"
        by (cases "outlier_loop h1 a columns method k")
      with Cons.prems True c Inr have e: "h2 = h'" "r2 = r" by auto
      from Cons.IH[OF l[unfolded e] ne(2)] cap_column_other[OF c ne(1)] show ?thesis by auto
    qed
  qed
qed

lemma outlier_loop_shape:
  "outlier_loop h a columns method k = (h', lg, r) \<Longrightarrow> shape (h' ! a) = shape (h ! a)"
proof (induction columns arbitrary: h lg)
  case Nil
  then show ?case by simp
next
  case (Cons col columns)
  show ?case
  proof (cases "method = ''iqr''")
    case False
    with Cons show ?thesis by simp
  next
    case True
    obtain h1 lg1 r1 where c: "cap_column h a col k = (h1, lg1, r1)" by (cases "cap_column h a col k")
    show ?thesis
    proof (cases r1)
      case (Inl e)
      with Cons.prems True c cap_column_shape[OF c] show ?thesis by auto
    next
      case (Inr u)
      obtain h2 lg2 r2 where l: "outlier_loop h1 a columns method k = (h2, lg2, r2)"
        by (cases "outlier_loop h1 a columns method k")
      with Cons.prems True c Inr have e: "h2 = h'" "r2 = r" by auto
      from Cons.IH[OF l[unfolded e]] cap_column_shape[OF c] show ?thesis by auto
    qed
  qed
qed

text \<open>The column \<open>c\<close> of the frame at \<open>a\<close> stays within bounds it already respects.\<close>

lemma cap_column_within:
  assumes "cap_column h a col k = (h', lg, Inr u)" "a < length h" "- 1/2 \<le> k"
    and "map_of (h ! a) c = Some (NumCol ys)" "all_within lo up ys"
  shows "\<exists>ys'. map_of (h' ! a) c = Some (NumCol ys') \<and> all_within lo up ys' \<and> length ys' = length ys"
proof (cases "c = col")
  case False
  then show ?thesis using cap_column_other[OF assms(1), of c] assms(4,5) by simp
next
  case True
  from cap_column_Inr[OF assms(1) assms(4)[unfolded True]] obtain lo' up' where
    b: "iqr_bounds ys k = (lo', up')"
    and h': "h' = h[a := set_column (h ! a) col (NumCol (map (cap lo' up') ys))]"
    by auto
  have "map_of (h' ! a) c = Some (NumCol (map (cap lo' up') ys))"
    using h' assms(2) True by (simp add: map_of_set_column)
  then show ?thesis using cap_preserves_within[OF assms(3,5) b] by simp
qed

lemma outlier_loop_within:
  "outlier_loop h a columns ''iqr'' k = (h', lg, Inr u) \<Longrightarrow> a < length h \<Longrightarrow> - 1/2 \<le> k \<Longrightarrow>
   map_of (h ! a) c = Some (NumCol ys) \<Longrightarrow> all_within lo up ys \<Longrightarrow>
   \<exists>ys'. map_of (h' ! a) c = Some (NumCol ys') \<and> all_within lo up ys' \<and> length ys' = length ys"
proof (induction columns arbitrary: h lg ys)
  case Nil
  then show ?case by simp
next
  case (Cons col columns)
  obtain h1 lg1 r1 where c: "cap_column h a col k = (h1, lg1, r1)" by (cases "cap_column h a col k")
  obtain h2 lg2 r2 where l: "outlier_loop h1 a columns ''iqr'' k = (h2, lg2, r2)"
    by (cases "outlier_loop h1 a columns ''iqr'' k")
  from Cons.prems(1) c l obtain u1 where r1: "r1 = Inr u1" and r2: "r2 = Inr u" and h2: "h2 = h'"
    by (cases r1) auto
  from cap_column_within[OF c[unfolded r1] Cons.prems(2,3,4,5)] obtain ys1 where
    ys1: "map_of (h1 ! a) c = Some (NumCol ys1)" "all_within lo up ys1" "length ys1 = length ys"
    by auto
  have len: "a < length h1" using cap_column_heap[OF c] Cons.prems(2) by simp
  from Cons.IH[OF l[unfolded r2 h2] len Cons.prems(3) ys1(1,2)] ys1(3) show ?case by auto
qed

text \<open>The first pass over a column that the list names.\<close>

lemma outlier_loop_first:
  "outlier_loop h a columns ''iqr'' k = (h', lg, Inr u) \<Longrightarrow> a < length h \<Longrightarrow> - 1/2 \<le> k \<Longrightarrow>
   map_of (h ! a) col = Some (NumCol xs) \<Longrightarrow> col \<in> set columns \<Longrightarrow> iqr_bounds xs k = (lo, up) \<Longrightarrow>
   \<exists>ys. map_of (h' ! a) col = Some (NumCol ys) \<and> all_within lo up ys \<and> length ys = length xs \<and>
        (count_list columns col = 1 \<longrightarrow> ys = map (cap lo up) xs)"
proof (induction columns arbitrary: h lg)
  case Nil
  then show ?case by simp
next
  case (Cons c columns)
  obtain h1 lg1 r1 where c: "cap_column h a c k = (h1, lg1, r1)" by (cases "cap_column h a c k")
  obtain h2 lg2 r2 where l: "outlier_loop h1 a columns ''iqr'' k = (h2, lg2, r2)"
    by (cases "outlier_loop h1 a columns ''iqr'' k")
  from Cons.prems(1) c l obtain u1 where r1: "r1 = Inr u1" and r2: "r2 = Inr u" and h2: "h2 = h'"
    by (cases r1) auto
  have len: "a < length h1" using cap_column_heap[OF c] Cons.prems(2) by simp
  show ?case
  proof (cases "c = col")
    case False
    have "map_of (h1 ! a) col = Some (NumCol xs)"
      using cap_column_other[OF c, of col] False Cons.prems(4) by simp
    from Cons.IH[OF l[unfolded r2 h2] len Cons.prems(3) this _ Cons.prems(6)] Cons.prems(5) False
    show ?thesis by auto
  next
    case True
    from cap_column_Inr[OF c[unfolded r1 True] Cons.prems(4)] Cons.prems(6)
    have h1: "h1 = h[a := set_column (h ! a) col (NumCol (map (cap lo up) xs))]" by auto
    have m: "map_of (h1 ! a) col = Some (NumCol (map (cap lo up) xs))"
      using h1 Cons.prems(2) by (simp add: map_of_set_column)
    have w: "all_within lo up (map (cap lo up) xs)"
      using cap_establishes_within[OF Cons.prems(3,6)] .
    from outlier_loop_within[OF l[unfolded r2 h2] len Cons.prems(3) m w] obtain ys where
      ys: "map_of (h' ! a) col = Some (NumCol ys)" "all_within lo up ys" "length ys = length xs"
      by auto
    have "ys = map (cap lo up) xs" if "count_list (c # columns) col = 1"
    proof -
      from that True have "col \<notin> set columns" by (simp add: count_list_0_iff)
      from outlier_loop_other[OF l[unfolded r2 h2] this] m ys(1) show ?thesis by simp
    qed
    with ys show ?thesis by auto
  qed
qed

lemma handle_outliers_Inr:
  assumes "handle_outliers h data columns method k = (h', lg, Inr a)"
  shows "a = length h \<and> (\<exists>u. outlier_loop (h @ [h ! data]) (length h) columns method k = (h', lg, Inr u))"
  using assms by (auto simp: handle_outliers_def Let_def split: prod.splits sum.splits)

text \<open>
  In exact arithmetic, and for a threshold \<open>k \<ge> -1/2\<close>, the lower bound is not above the
  upper one, and a numeric column of the list ends within the bounds of its input values,
  however often the list names it.
\<close>

lemma handle_outliers_exact_bounds:
  assumes "handle_outliers h data columns ''iqr'' k = (h', lg, Inr a)"
    and "map_of (h ! data) col = Some (NumCol xs)"
    and "col \<in> set columns"
    and "- 1/2 \<le> k"
    and "iqr_bounds xs k = (lower, upper)"
  shows "(\<exists>ys. map_of (h' ! a) col = Some (NumCol ys) \<and> length ys = length xs \<and>
            (\<forall>i < length ys. ys ! i \<noteq> None \<longrightarrow> fle lower (ys ! i) \<and> fle (ys ! i) upper) \<and>
            (count_list columns col = 1 \<longrightarrow> ys = map (cap lower upper) xs)) \<and>
         n_rows (h' ! a) = n_rows (h ! data)"
proof -
  from handle_outliers_Inr[OF assms(1)] obtain u where
    a: "a = length h" and l: "outlier_loop (h @ [h ! data]) (length h) columns ''iqr'' k = (h', lg, Inr u)"
    by auto
  have len: "length h < length (h @ [h ! data])" by simp
  have m: "map_of ((h @ [h ! data]) ! length h) col = Some (NumCol xs)" using assms(2) by simp
  from outlier_loop_first[OF l len assms(4) m assms(3,5)] obtain ys where
    ys: "map_of (h' ! a) col = Some (NumCol ys)" "all_within lower upper ys" "length ys = length xs"
        "count_list columns col = 1 \<longrightarrow> ys = map (cap lower upper) xs"
    unfolding a by auto
  have "\<forall>i < length ys. ys ! i \<noteq> None \<longrightarrow> fle lower (ys ! i) \<and> fle (ys ! i) upper"
    using ys(2) by (auto simp: all_within_def)
  moreover have "n_rows (h' ! a) = n_rows (h ! data)"
    using outlier_loop_shape[OF l] unfolding a by (auto intro: n_rows_shape)
  ultimately show ?thesis using ys by blast
qed

lemmas ho_eval = quantile_def lerp_sorted_def iqr_bounds_def fsub_def fadd_def fmul_def
      handle_outliers_def cap_column_def cap_def flt_def fgt_def

text \<open>
  Claim C2. For the column \<open>[1, 2, 3, 4, 100]\<close> and the threshold \<open>1.5\<close> the quartiles are
  \<open>2\<close> and \<open>4\<close>, their difference is \<open>2\<close>, the bounds are \<open>-1\<close> and \<open>7\<close>, and
  \<^verbatim>\<open>handle_outliers\<close> returns a copy in which \<open>100\<close> has become \<open>7\<close> and the other values
  are as before.
\<close>

theorem handle_outliers_example:
  "quantile [Some 1, Some 2, Some 3, Some 4, Some 100] (1/4) = Some 2 \<and>
   quantile [Some 1, Some 2, Some 3, Some 4, Some 100] (3/4) = Some 4 \<and>
   fsub (Some 4) (Some 2) = Some 2 \<and>
   iqr_bounds [Some 1, Some 2, Some 3, Some 4, Some 100] (3/2) = (Some (- 1), Some 7) \<and>
   handle_outliers [[(''x'', NumCol [Some 1, Some 2, Some 3, Some 4, Some 100])]] 0 [''x''] ''iqr'' (3/2)
     = ([[(''x'', NumCol [Some 1, Some 2, Some 3, Some 4, Some 100])],
         [(''x'', NumCol [Some 1, Some 2, Some 3, Some 4, Some 7])]],
        [Info_outliers 1 ''x''], Inr 1)"
  by (simp add: ho_eval)

lemma outlier_loop_not_iqr:
  "method \<noteq> ''iqr'' \<Longrightarrow> outlier_loop h a columns method threshold = (h, [], Inr ())"
  by (induction columns) auto

text \<open>
  Claim C10. With a method other than \<^verbatim>\<open>'iqr'\<close>, and whatever the frame, the column list
  and the threshold, \<^verbatim>\<open>handle_outliers\<close> raises nothing, logs nothing, and returns the
  address of a new frame that is equal to its argument.
\<close>

theorem handle_outliers_other_method:
  "method \<noteq> ''iqr'' \<Longrightarrow>
   handle_outliers h data columns method threshold = (h @ [h ! data], [], Inr (length h))"
  by (simp add: handle_outliers_def outlier_loop_not_iqr)

theorem handle_outliers_other_method_witness:
  "''zscore'' \<noteq> ''iqr'' \<and>
   handle_outliers [[(''x'', NumCol [Some 1, Some 2, Some 3, Some 4, Some 100])]] 0 [''x'', ''nope'']
       ''zscore'' (3/2)
     = ([[(''x'', NumCol [Some 1, Some 2, Some 3, Some 4, Some 100])],
         [(''x'', NumCol [Some 1, Some 2, Some 3, Some 4, Some 100])]], [], Inr 1)"
proof -
  have h: "''zscore'' \<noteq> ''iqr''" by simp
  show ?thesis
    using handle_outliers_other_method[OF h,
        of "[[(''x'', NumCol [Some 1, Some 2, Some 3, Some 4, Some 100])]]" 0 "[''x'', ''nope'']" "3/2"]
    by simp
qed

lemma map_fst_shape: "map fst (shape df) = map fst df"
  by (simp add: shape_def case_prod_unfold)

text \<open>
  Claim C9. \<^verbatim>\<open>handle_outliers\<close> leaves its argument, and every other frame of the store,
  as it was, also when it raises. The frame it returns is a new object with the column
  names of the argument, and each of its columns that the list does not name is the column
  of the argument.
\<close>

theorem handle_outliers_input_unchanged:
  assumes "handle_outliers h data columns method k = (h', lg, r)" and "data < length h"
  shows "h' ! data = h ! data \<and> take (length h) h' = h \<and>
         (\<forall>a. r = Inr a \<longrightarrow> a = length h \<and> a \<noteq> data \<and> a < length h' \<and>
            map fst (h' ! a) = map fst (h ! data) \<and>
            (\<forall>c. c \<notin> set columns \<longrightarrow> map_of (h' ! a) c = map_of (h ! data) c))"
proof -
  obtain r' where l: "outlier_loop (h @ [h ! data]) (length h) columns method k = (h', lg, r')"
    and r: "\<And>a. r = Inr a \<Longrightarrow> a = length h"
    using assms(1) by (auto simp: handle_outliers_def Let_def split: prod.splits sum.splits)
  from outlier_loop_heap[OF l] have len: "length h' = Suc (length h)"
    and same: "\<And>b. b < length h \<Longrightarrow> h' ! b = h ! b"
    by (auto simp: nth_append)
  have t: "take (length h) h' = h"
    using len same by (intro nth_equalityI) auto
  have names: "map fst (h' ! length h) = map fst (h ! data)"
    using outlier_loop_shape[OF l] map_fst_shape[of "h' ! length h"] map_fst_shape[of "h ! data"]
    by simp
  have other: "map_of (h' ! length h) c = map_of (h ! data) c" if "c \<notin> set columns" for c
    using outlier_loop_other[OF l that] by simp
  show ?thesis using same[OF assms(2)] t r len names other assms(2) by auto
qed

theorem handle_outliers_input_unchanged_witness:
  "handle_outliers [[(''x'', NumCol [Some 1, Some 2, Some 3, Some 4, Some 100]), (''y'', NumCol [Some 0, Some 0, Some 0, Some 0, Some 9])]] 0 [''x''] ''iqr'' (3/2)
     = ([[(''x'', NumCol [Some 1, Some 2, Some 3, Some 4, Some 100]), (''y'', NumCol [Some 0, Some 0, Some 0, Some 0, Some 9])],
         [(''x'', NumCol [Some 1, Some 2, Some 3, Some 4, Some 7]), (''y'', NumCol [Some 0, Some 0, Some 0, Some 0, Some 9])]],
        [Info_outliers 1 ''x''], Inr 1) \<and>
   (0::nat) < length [[(''x'', NumCol [Some 1, Some 2, Some 3, Some 4, Some 100]), (''y'', NumCol [Some 0, Some 0, Some 0, Some 0, Some (9::real)])]] \<and>
   ''y'' \<notin> set [''x''] \<and>
   map_of ([[(''x'', NumCol [Some 1, Some 2, Some 3, Some 4, Some 100]), (''y'', NumCol [Some 0, Some 0, Some 0, Some 0, Some 9])],
         [(''x'', NumCol [Some 1, Some 2, Some 3, Some 4, Some 7]), (''y'', NumCol [Some 0, Some 0, Some 0, Some 0, Some 9])]] ! 1) ''y''
     = Some (NumCol [Some 0, Some 0, Some 0, Some 0, Some 9])"
proof -
  let ?df = "[(''x'', NumCol [Some 1, Some 2, Some 3, Some 4, Some 100]), (''y'', NumCol [Some 0, Some 0, Some 0, Some 0, Some (9::real)])]"
  let ?df' = "[(''x'', NumCol [Some 1, Some 2, Some 3, Some 4, Some 7]), (''y'', NumCol [Some 0, Some 0, Some 0, Some 0, Some (9::real)])]"
  have h1: "handle_outliers [?df] 0 [''x''] ''iqr'' (3/2) = ([?df, ?df'], [Info_outliers 1 ''x''], Inr 1)"
    by (simp add: ho_eval)
  have h2: "(0::nat) < length [?df]" by simp
  show ?thesis
    using handle_outliers_input_unchanged[OF h1 h2] h1 by simp
qed

subsection \<open>The loop in floating point\<close>






lemma cap_column_fp_heap:
  assumes "cap_column_fp A h a col k = (h', lg, r)"
  shows "length h' = length h \<and> (\<forall>b. b \<noteq> a \<longrightarrow> h' ! b = h ! b)"
  using assms
  by (auto simp: cap_column_fp_def Let_def
      split: option.splits fcolumn.splits prod.splits if_splits)



text \<open>One step of the loop, and what it hands to the rest.\<close>

lemma outlier_loop_fp_Cons:
  assumes "outlier_loop_fp A h a (col # columns) ''iqr'' k = (h', lg, r)"
  shows "\<exists>h1 lg1 r1. cap_column_fp A h a col k = (h1, lg1, r1) \<and>
           (case r1 of Inl e \<Rightarrow> h' = h1 \<and> r = Inl e
            | Inr u \<Rightarrow> (\<exists>lg2. outlier_loop_fp A h1 a columns ''iqr'' k = (h', lg2, r)))"
  using assms by (auto split: prod.splits sum.splits)

lemma outlier_loop_fp_not_iqr:
  "method \<noteq> ''iqr'' \<Longrightarrow> outlier_loop_fp A h a columns method k = (h, [], Inr ())"
  by (induction columns) auto

lemma outlier_loop_fp_heap:
  "outlier_loop_fp A h a columns method k = (h', lg, r) \<Longrightarrow>
   length h' = length h \<and> (\<forall>b. b \<noteq> a \<longrightarrow> h' ! b = h ! b)"
proof (cases "method = ''iqr''")
  case False
  assume "outlier_loop_fp A h a columns method k = (h', lg, r)"
  with outlier_loop_fp_not_iqr[OF False] show ?thesis by simp
next
  case True
  assume "outlier_loop_fp A h a columns method k = (h', lg, r)"
  then show ?thesis unfolding True
  proof (induction columns arbitrary: h lg)
    case Nil
    then show ?case by simp
  next
    case (Cons col columns)
    from outlier_loop_fp_Cons[OF Cons.prems] obtain h1 lg1 r1 where
      c: "cap_column_fp A h a col k = (h1, lg1, r1)" and
      rest: "case r1 of Inl e \<Rightarrow> h' = h1 \<and> r = Inl e
            | Inr u \<Rightarrow> (\<exists>lg2. outlier_loop_fp A h1 a columns ''iqr'' k = (h', lg2, r))"
      by blast
    show ?case
    proof (cases r1)
      case (Inl e)
      with rest cap_column_fp_heap[OF c] show ?thesis by simp
    next
      case (Inr u)
      with rest obtain lg2 where "outlier_loop_fp A h1 a columns ''iqr'' k = (h', lg2, r)" by auto
      from Cons.IH[OF this] cap_column_fp_heap[OF c] show ?thesis by auto
    qed
  qed
qed







text \<open>With the arithmetic that does not round, the loop is the one in exact arithmetic.\<close>

lemma to_float_of_float [simp]: "to_float (of_float x) = x"
  by (cases x) auto

lemma map_to_float_of_float [simp]: "map to_float (map of_float xs) = xs"
  by (induction xs) auto

lemma f_lt_of_float: "f_lt (of_float a) (of_float b) = flt a b"
  by (cases a; cases b) (auto simp: flt_def)

lemma flt_fgt: "flt b a = fgt a b"
  by (cases a; cases b) (auto simp: flt_def fgt_def)

lemma to_float_comp_of_float [simp]: "to_float \<circ> of_float = id"
  by (rule ext) simp

lemma cap_fp_of_float: "cap_fp (of_float lo) (of_float up) (of_float x) = of_float (cap lo up x)"
  by (simp add: cap_fp_def cap_def f_lt_of_float flt_fgt)

lemma iqr_bounds_fp_exact:
  "iqr_bounds_fp exact_ops (F64 (map of_float xs)) (Fin k)
     = (of_float (fst (iqr_bounds xs k)), of_float (snd (iqr_bounds xs k)))"
  by (simp add: iqr_bounds_fp_def iqr_bounds_def exact_ops_def Let_def)

lemma map_of_fframe_of: "map_of (fframe_of df) c = map_option fcolumn_of (map_of df c)"
  by (induction df) (auto simp: fframe_of_def)

lemma set_fcolumn_fframe_of:
  "set_fcolumn (fframe_of df) c (fcolumn_of v) = fframe_of (set_column df c v)"
  by (induction df) (auto simp: fframe_of_def)

lemma length_filter_of_float:
  "length (filter (\<lambda>x. f_lt x (of_float lo) \<or> f_lt (of_float up) x) (map of_float xs))
     = length (filter (\<lambda>x. flt x lo \<or> fgt x up) xs)"
  by (induction xs) (auto simp: f_lt_of_float flt_fgt)

lemma cap_column_fp_exact:
  assumes "a < length h"
  shows "cap_column_fp exact_ops (map fframe_of h) a col (Fin k)
     = (case cap_column h a col k of (h', lg, r) \<Rightarrow> (map fframe_of h', lg, r))"
proof (cases "map_of (h ! a) col")
  case None
  then show ?thesis using assms
    by (simp add: cap_column_fp_def cap_column_def map_of_fframe_of)
next
  case (Some c)
  show ?thesis
  proof (cases c)
    case (StrCol xs)
    with Some assms show ?thesis
      by (simp add: cap_column_fp_def cap_column_def map_of_fframe_of)
  next
    case (NumCol xs)
    obtain lo up where b: "iqr_bounds xs k = (lo, up)" by (cases "iqr_bounds xs k")
    define out where "out = filter (\<lambda>x. flt x lo \<or> fgt x up) xs"
    define fout where
      "fout = filter (\<lambda>x. f_lt x (of_float lo) \<or> f_lt (of_float up) x) (map of_float xs)"
    have lo: "length fout = length out"
      unfolding fout_def out_def by (rule length_filter_of_float)
    then have e: "fout = [] \<longleftrightarrow> out = []" by (metis length_0_conv)
    have m: "map_of (map fframe_of h ! a) col = Some (F64 (map of_float xs))"
      using Some NumCol assms by (simp add: map_of_fframe_of)
    have lhs: "cap_column_fp exact_ops (map fframe_of h) a col (Fin k)
        = ((map fframe_of h)[a := set_fcolumn (map fframe_of h ! a) col
               (F64 (map (cap_fp (of_float lo) (of_float up)) (map of_float xs)))],
           (if fout \<noteq> [] then [Info_outliers (length fout) col] else []), Inr ())"
      by (simp add: cap_column_fp_def m iqr_bounds_fp_exact b Let_def fout_def)
    have rhs: "cap_column h a col k
        = (h[a := set_column (h ! a) col (NumCol (map (cap lo up) xs))],
           (if out \<noteq> [] then [Info_outliers (length out) col] else []), Inr ())"
      using Some NumCol by (simp add: cap_column_def b Let_def out_def)
    have c: "F64 (map (cap_fp (of_float lo) (of_float up)) (map of_float xs))
        = fcolumn_of (NumCol (map (cap lo up) xs))"
      by (simp add: cap_fp_of_float)
    have u: "(map fframe_of h)[a := set_fcolumn (map fframe_of h ! a) col
               (F64 (map (cap_fp (of_float lo) (of_float up)) (map of_float xs)))]
        = map fframe_of (h[a := set_column (h ! a) col (NumCol (map (cap lo up) xs))])"
      unfolding c using assms by (simp add: set_fcolumn_fframe_of map_update del: fcolumn_of.simps)
    show ?thesis unfolding lhs rhs u using lo e by simp
  qed
qed

lemma outlier_loop_fp_exact:
  "a < length h \<Longrightarrow>
   outlier_loop_fp exact_ops (map fframe_of h) a columns method (Fin k)
     = (case outlier_loop h a columns method k of (h', lg, r) \<Rightarrow> (map fframe_of h', lg, r))"
proof (induction columns arbitrary: h)
  case Nil
  then show ?case by simp
next
  case (Cons col columns)
  show ?case
  proof (cases "method = ''iqr''")
    case False
    with Cons show ?thesis by simp
  next
    case True
    obtain h1 lg1 r1 where c: "cap_column h a col k = (h1, lg1, r1)" by (cases "cap_column h a col k")
    have len: "a < length h1" using cap_column_heap[OF c] Cons.prems by simp
    from cap_column_fp_exact[OF Cons.prems] c
    have cf: "cap_column_fp exact_ops (map fframe_of h) a col (Fin k) = (map fframe_of h1, lg1, r1)"
      by simp
    show ?thesis
    proof (cases r1)
      case (Inl e)
      with True c cf show ?thesis by simp
    next
      case (Inr u)
      with True c cf Cons.IH[OF len] show ?thesis
        by (simp split: prod.splits)
    qed
  qed
qed

lemma handle_outliers_fp_exact:
  assumes "data < length h"
  shows "handle_outliers_fp exact_ops (map fframe_of h) data columns method (Fin k)
     = (case handle_outliers h data columns method k of (h', lg, r) \<Rightarrow> (map fframe_of h', lg, r))"
proof -
  have e: "map fframe_of h @ [map fframe_of h ! data] = map fframe_of (h @ [h ! data])"
    using assms by simp
  have len: "length h < length (h @ [h ! data])" by simp
  show ?thesis
    unfolding handle_outliers_fp_def handle_outliers_def Let_def e
    using outlier_loop_fp_exact[OF len]
    by (auto split: prod.splits sum.splits)
qed





section \<open>Properties of loading\<close>

text \<open>
  Claim C7. \<^verbatim>\<open>load_data\<close> gives exactly what the one call of the reader gives: the frame
  when the read succeeds, the same exception when it fails. The world after the call is
  the world after one read, for any reader, so there is no second attempt. A failure that
  is an \<^verbatim>\<open>Exception\<close> is logged before it is raised again.
\<close>

theorem load_data_reraises:
  "fst (load_data read_csv w filepath) = snd (read_csv w filepath) \<and>
   snd (snd (load_data read_csv w filepath)) = fst (read_csv w filepath) \<and>
   (\<forall>e. fst (read_csv w filepath) = Inl e \<and> is_Exception e \<longrightarrow>
        fst (snd (load_data read_csv w filepath)) = [Info_loading filepath, Error_loading e])"
  by (auto simp: load_data_def split: prod.splits sum.splits)

theorem load_data_reraises_witness:
  "load_data (\<lambda>w p. (Inl FileNotFoundError, Suc w)) 0 ''data/raw/Loan_Data.csv''
     = (Suc 0, [Info_loading ''data/raw/Loan_Data.csv'', Error_loading FileNotFoundError],
        Inl FileNotFoundError)"
  using load_data_reraises[of "\<lambda>w p. (Inl FileNotFoundError, Suc w)" "0::nat" "''data/raw/Loan_Data.csv''"]
  by (simp add: load_data_def)

section \<open>A worked example\<close>

text \<open>The example data set, split and preprocessed with the example generator.\<close>

lemma split_data_example:
  "split_data example_rng () [example_data] 0 ''default'' (1/5) (Some 42)
     = ([example_data,
         [(''income'', NumCol [Some 1, Some 3, Some 2, Some 1, Some 3, Some 5])],
         [(''income'', NumCol [Some 1, Some 3, Some 2, Some 1, Some 3, Some 5])]],
        (), [Info_start, Info_no_missing, Info_shapes 6 1 6, Info_split 4 1 2 1],
        Inr ([(''income'', NumCol [Some 1, Some 3, Some 1, Some 3])],
             [(''income'', NumCol [Some 2, Some 5])],
             NumCol [Some 0, Some 0, Some 1, Some 1],
             NumCol [Some 0, Some 1]))"
  by code_simp


lemmas scaler_eval = fit_def transform_def fit_transform_def check_array_def n_rows_def
  col_mean_def col_var_def col_scale_def is_constant_feature_def float_eps_def
  scale_column_def fdiv_def fsub_def




section \<open>Properties of the splitter\<close>

subsection \<open>Sizes and class counts\<close>

lemma sum_list_divide_const:
  fixes f :: "'a \<Rightarrow> real"
  shows "sum_list (map (\<lambda>x. f x / c) xs) = sum_list (map f xs) / c"
  by (induction xs) (auto simp: add_divide_distrib)

lemma validate_shuffle_split_Inr:
  assumes "validate_shuffle_split n test_size = Inr (n_train, n_test)"
  shows "n_train + n_test = n \<and> 0 < n_train \<and> 0 < n_test"
proof -
  from assms have ts: "0 < test_size" "test_size < 1"
    and nt: "n_test = nat \<lceil>test_size * real n\<rceil>" and ntr: "n_train = n - n_test" "n_train \<noteq> 0"
    by (auto simp: validate_shuffle_split_def Let_def split: if_splits)
  from ntr have n: "0 < n" by simp
  have "test_size * real n \<le> real n" using ts n by simp
  then have c1: "\<lceil>test_size * real n\<rceil> \<le> int n" by (simp add: ceiling_le_iff)
  have le: "n_test \<le> n" unfolding nt using c1 by linarith
  have "0 < test_size * real n" using ts n by simp
  then have c2: "0 < \<lceil>test_size * real n\<rceil>" by (simp add: less_ceiling_iff)
  have "0 < n_test" unfolding nt using c2 by linarith
  with le ntr show ?thesis by simp
qed

lemma sum_list_update_int:
  fixes xs :: "int list"
  shows "i < length xs \<Longrightarrow> sum_list (xs[i := x]) = sum_list xs - xs ! i + x"
  by (induction xs arbitrary: i) (auto split: nat.splits)

lemma fold_incr_sum:
  fixes fl :: "int list"
  assumes "distinct chosen" "\<forall>i \<in> set chosen. i < length fl"
    and "\<forall>i \<in> set chosen. f0 ! i = fl ! i" "length f0 = length fl"
  shows "sum_list (fold (\<lambda>i f. f[i := fl ! i + 1]) chosen f0) = sum_list f0 + int (length chosen) \<and>
         length (fold (\<lambda>i f. f[i := fl ! i + 1]) chosen f0) = length fl"
  using assms
proof (induction chosen arbitrary: f0)
  case Nil
  then show ?case by simp
next
  case (Cons c cs)
  let ?f1 = "f0[c := fl ! c + 1]"
  have c: "c < length f0" "f0 ! c = fl ! c" "c \<notin> set cs" using Cons.prems by auto
  have s: "sum_list ?f1 = sum_list f0 + 1" using c by (simp add: sum_list_update_int)
  have "\<forall>i \<in> set cs. ?f1 ! i = fl ! i" using Cons.prems c by (auto simp: nth_list_update)
  moreover have "distinct cs" "\<forall>i \<in> set cs. i < length fl" "length ?f1 = length fl"
    using Cons.prems by auto
  ultimately have "sum_list (fold (\<lambda>i f. f[i := fl ! i + 1]) cs ?f1) = sum_list ?f1 + int (length cs) \<and>
         length (fold (\<lambda>i f. f[i := fl ! i + 1]) cs ?f1) = length fl"
    by (intro Cons.IH) auto
  then show ?case using s by simp
qed

lemma length_filter_disj_le:
  "length (filter (\<lambda>x. P x \<or> Q x) xs) \<le> length (filter P xs) + length (filter Q xs)"
  by (induction xs) auto

lemma length_filter_values_le:
  "length (filter (\<lambda>x. f x \<in> set vs) xs) \<le> (\<Sum>v\<leftarrow>vs. length (filter (\<lambda>x. f x = v) xs))"
proof (induction vs)
  case Nil
  then show ?case by simp
next
  case (Cons v vs)
  have "length (filter (\<lambda>x. f x \<in> set (v # vs)) xs)
        = length (filter (\<lambda>x. f x = v \<or> f x \<in> set vs) xs)" by simp
  also have "\<dots> \<le> length (filter (\<lambda>x. f x = v) xs) + length (filter (\<lambda>x. f x \<in> set vs) xs)"
    by (rule length_filter_disj_le)
  finally show ?case using Cons by simp
qed

lemma add_loop_sum:
  assumes "rng_ok R"
  shows "length fl = length remainder \<Longrightarrow> 0 < need \<Longrightarrow>
         need \<le> (\<Sum>v\<leftarrow>vs. int (length (filter (\<lambda>i. remainder ! i = v) [0..<length remainder]))) \<Longrightarrow>
         sum_list (fst (add_loop R remainder vs fl need g)) = sum_list fl + need \<and>
         length (fst (add_loop R remainder vs fl need g)) = length fl"
proof (induction vs arbitrary: fl need g)
  case Nil
  then show ?case by simp
next
  case (Cons v vs)
  define inds where "inds = filter (\<lambda>i. remainder ! i = v) [0..<length remainder]"
  define add_now where "add_now = min (int (length inds)) need"
  obtain chosen g' where ch: "rng_choice R g inds (nat add_now) = (chosen, g')"
    by (cases "rng_choice R g inds (nat add_now)")
  define fl' where "fl' = fold (\<lambda>i f. f[i := fl ! i + 1]) chosen fl"
  have an: "0 \<le> add_now" "add_now \<le> int (length inds)" "add_now \<le> need"
    using Cons.prems(2) by (auto simp: add_now_def)
  have di: "distinct inds" by (simp add: inds_def)
  from assms an di have "distinct (fst (rng_choice R g inds (nat add_now))) \<and>
         set (fst (rng_choice R g inds (nat add_now))) \<subseteq> set inds \<and>
         length (fst (rng_choice R g inds (nat add_now))) = nat add_now"
    unfolding rng_ok_def by (metis nat_le_iff)
  then have chosen: "distinct chosen" "set chosen \<subseteq> set inds" "length chosen = nat add_now"
    using ch by auto
  have "\<forall>i \<in> set chosen. i < length fl"
    using chosen(2) Cons.prems(1) by (auto simp: inds_def)
  from fold_incr_sum[OF chosen(1) this, of fl]
  have fl': "sum_list fl' = sum_list fl + add_now" "length fl' = length fl"
    using chosen(3) an by (auto simp: fl'_def)
  have step: "add_loop R remainder (v # vs) fl need g =
      (if need - add_now = 0 then (fl', g') else add_loop R remainder vs fl' (need - add_now) g')"
    using ch by (simp add: inds_def[symmetric] add_now_def[symmetric] fl'_def[symmetric] Let_def)
  show ?case
  proof (cases "need - add_now = 0")
    case True
    then show ?thesis using step fl' by simp
  next
    case False
    then have lt: "0 < need - add_now" using an by simp
    then have "add_now = int (length inds)" by (auto simp: add_now_def)
    then have "need - add_now \<le>
        (\<Sum>v\<leftarrow>vs. int (length (filter (\<lambda>i. remainder ! i = v) [0..<length remainder])))"
      using Cons.prems(3) by (simp add: inds_def)
    from Cons.IH[OF _ lt this, of fl' g'] fl' Cons.prems(1)
    show ?thesis using step False by simp
  qed
qed

lemma int_sum_list_map: "int (sum_list (map f xs)) = sum_list (map (\<lambda>x. int (f x)) xs)"
  by (induction xs) auto

lemma frac_sum_bounds:
  fixes xs :: "real list"
  shows "0 \<le> sum_list xs - real_of_int (sum_list (map floor xs))"
    and "xs \<noteq> [] \<Longrightarrow> sum_list xs - real_of_int (sum_list (map floor xs)) < real (length xs)"
proof -
  show a: "0 \<le> sum_list xs - real_of_int (sum_list (map floor xs))"
  proof (induction xs)
    case Nil
    then show ?case by simp
  next
    case (Cons x xs)
    have e1: "sum_list (x # xs) = x + sum_list xs" by simp
    have e2: "real_of_int (sum_list (map floor (x # xs)))
        = real_of_int \<lfloor>x\<rfloor> + real_of_int (sum_list (map floor xs))" by simp
    show ?case unfolding e1 e2 using Cons of_int_floor_le[of x] by linarith
  qed
  show "xs \<noteq> [] \<Longrightarrow> sum_list xs - real_of_int (sum_list (map floor xs)) < real (length xs)"
  proof (induction xs)
    case Nil
    then show ?case by simp
  next
    case (Cons x xs)
    have x: "x - real_of_int \<lfloor>x\<rfloor> < 1" by linarith
    have e1: "sum_list (x # xs) = x + sum_list xs" by simp
    have e2: "real_of_int (sum_list (map floor (x # xs)))
        = real_of_int \<lfloor>x\<rfloor> + real_of_int (sum_list (map floor xs))" by simp
    have e3: "real (length (x # xs)) = 1 + real (length xs)" by simp
    show ?case
    proof (cases "xs = []")
      case True
      with x show ?thesis by simp
    next
      case False
      show ?thesis unfolding e1 e2 e3 using Cons.IH[OF False] x by linarith
    qed
  qed
qed

lemma continuous_sum:
  assumes "0 < sum_list cc"
  shows "sum_list (map (\<lambda>c. real_of_int c / real_of_int (sum_list cc) * real n) cc) = real n"
proof -
  have "sum_list (map (\<lambda>c. real_of_int c / real_of_int (sum_list cc) * real n) cc)
      = sum_list (map (\<lambda>c. real_of_int c / real_of_int (sum_list cc)) cc) * real n"
    by (rule sum_list_mult_const)
  also have "\<dots> = sum_list (map real_of_int cc) / real_of_int (sum_list cc) * real n"
    by (simp add: sum_list_divide_const)
  also have "\<dots> = real n" using assms by (simp add: sum_list_of_int)
  finally show ?thesis .
qed

lemma approximate_mode_sum:
  assumes "rng_ok R" "0 < sum_list cc"
  shows "sum_list (fst (approximate_mode R cc n g)) = int n \<and>
         length (fst (approximate_mode R cc n g)) = length cc"
proof -
  define continuous where
    "continuous = map (\<lambda>c. real_of_int c / real_of_int (sum_list cc) * real n) cc"
  define floored where "floored = map (\<lambda>x. \<lfloor>x\<rfloor>) continuous"
  define need where "need = int n - sum_list floored"
  define remainder where "remainder = map (\<lambda>x. x - real_of_int \<lfloor>x\<rfloor>) continuous"
  define vs where "vs = rev (sort (remdups remainder))"
  have am: "approximate_mode R cc n g =
      (if need > 0 then add_loop R remainder vs floored need g else (floored, g))"
    by (simp add: approximate_mode_def Let_def continuous_def floored_def need_def
        remainder_def vs_def)
  have ne: "cc \<noteq> []" using assms(2) by auto
  have len: "length continuous = length cc" "length floored = length cc" "length remainder = length cc"
    by (simp_all add: continuous_def floored_def remainder_def)
  have cs: "sum_list continuous = real n" unfolding continuous_def by (rule continuous_sum[OF assms(2)])
  have rn: "real_of_int need = sum_list continuous - real_of_int (sum_list floored)"
    by (simp add: need_def cs)
  have "0 \<le> real_of_int need" unfolding rn floored_def by (rule frac_sum_bounds(1))
  then have n0: "0 \<le> need" by simp
  have "real_of_int need < real (length continuous)"
    unfolding rn floored_def using ne by (intro frac_sum_bounds(2)) (simp add: continuous_def)
  then have nk: "need \<le> int (length remainder)" using len by simp
  show ?thesis
  proof (cases "need > 0")
    case False
    with n0 have "need = 0" by simp
    then have "sum_list floored = int n" by (simp add: need_def)
    with False am len show ?thesis by simp
  next
    case True
    have "set vs = set remainder" by (simp add: vs_def)
    then have "filter (\<lambda>i. remainder ! i \<in> set vs) [0..<length remainder] = [0..<length remainder]"
      by (auto intro!: filter_True)
    with length_filter_values_le[of "\<lambda>i. remainder ! i" vs "[0..<length remainder]"]
    have "length remainder \<le> (\<Sum>v\<leftarrow>vs. length (filter (\<lambda>i. remainder ! i = v) [0..<length remainder]))"
      by simp
    then have "int (length remainder) \<le>
        (\<Sum>v\<leftarrow>vs. int (length (filter (\<lambda>i. remainder ! i = v) [0..<length remainder])))"
      by (simp add: int_sum_list_map[symmetric])
    with nk have b: "need \<le>
        (\<Sum>v\<leftarrow>vs. int (length (filter (\<lambda>i. remainder ! i = v) [0..<length remainder])))"
      by linarith
    have l: "length floored = length remainder" using len by simp
    from add_loop_sum[OF assms(1) l True b, of g] am True len
    show ?thesis by (simp add: need_def)
  qed
qed

lemma approximate_mode_exact:
  assumes "sum_list r = int n" "0 < n"
  shows "fst (approximate_mode R r n g) = r"
proof -
  have c: "map (\<lambda>c. real_of_int c / real_of_int (sum_list r) * real n) r = map real_of_int r"
    using assms by simp
  have f: "map (\<lambda>x. \<lfloor>x\<rfloor>) (map real_of_int r) = r" by (simp add: comp_def)
  show ?thesis
    unfolding approximate_mode_def Let_def c f using assms(1) by simp
qed

subsection \<open>The index lists\<close>

lemma py_slice_split: "py_slice P 0 a @ py_slice P a (int (length P)) = P"
  by (simp add: py_slice_def py_bound_def Let_def)

lemma perm_indices_mset:
  assumes "mset perm = mset [0..<length I]"
  shows "mset (map (\<lambda>p. I ! min p (length I - 1)) perm) = mset I"
proof -
  have "mset (map (\<lambda>p. I ! min p (length I - 1)) perm)
      = image_mset (\<lambda>p. I ! min p (length I - 1)) (mset perm)" by simp
  also have "\<dots> = mset (map (\<lambda>p. I ! min p (length I - 1)) [0..<length I])"
    by (simp add: assms)
  also have "map (\<lambda>p. I ! min p (length I - 1)) [0..<length I] = map (\<lambda>p. I ! p) [0..<length I]"
    by (intro map_cong) (auto simp: min_def)
  also have "\<dots> = I" by (rule map_nth)
  finally show ?thesis .
qed

lemma class_loop_mset:
  assumes "rng_ok R"
  shows "(\<forall>(c, I, n, t) \<in> set zs. nat c = length I \<and> n + t = int (length I)) \<Longrightarrow>
         class_loop R zs train test g = (train', test', g') \<Longrightarrow>
         mset (train' @ test') = mset (train @ test) + mset (concat (map (\<lambda>(c, I, n, t). I) zs))"
proof (induction zs arbitrary: train test g)
  case Nil
  then show ?case by simp
next
  case (Cons z zs)
  obtain c I n t where z: "z = (c, I, n, t)" by (cases z)
  from Cons.prems(1) z have cI: "nat c = length I" "n + t = int (length I)" by auto
  obtain perm g1 where p: "rng_permutation R g (nat c) = (perm, g1)"
    by (cases "rng_permutation R g (nat c)")
  define P where "P = map (\<lambda>p. I ! min p (length I - 1)) perm"
  from assms have "mset (fst (rng_permutation R g (nat c))) = mset [0..<nat c]"
    unfolding rng_ok_def by blast
  then have "mset perm = mset [0..<length I]" using p cI by simp
  then have mP: "mset P = mset I" unfolding P_def by (rule perm_indices_mset)
  have lP: "length P = length I" using mP by (metis size_mset)
  have sp: "py_slice P 0 n @ py_slice P n (n + t) = P"
    using py_slice_split[of P n] cI(2) lP by simp
  have step: "class_loop R (z # zs) train test g =
      class_loop R zs (train @ py_slice P 0 n) (test @ py_slice P n (n + t)) g1"
    using p by (simp add: z P_def Let_def)
  have rest: "\<forall>(c, I, n, t) \<in> set zs. nat c = length I \<and> n + t = int (length I)"
    using Cons.prems(1) by simp
  from Cons.IH[OF rest Cons.prems(2)[unfolded step]]
  have "mset (train' @ test') = mset ((train @ py_slice P 0 n) @ (test @ py_slice P n (n + t)))
      + mset (concat (map (\<lambda>(c, I, n, t). I) zs))" .
  also have "mset ((train @ py_slice P 0 n) @ (test @ py_slice P n (n + t)))
      = mset (train @ test) + mset (py_slice P 0 n @ py_slice P n (n + t))" by simp
  finally show ?case using sp mP z by simp
qed

lemma filter_mset_disjoint_union:
  assumes "\<And>x. \<not> (P x \<and> Q x)"
  shows "filter_mset P M + filter_mset Q M = filter_mset (\<lambda>x. P x \<or> Q x) M"
  using assms by (induction M) auto

lemma class_indices_mset:
  "distinct classes \<Longrightarrow>
   mset (concat (map (\<lambda>c. filter (\<lambda>i. f i = c) xs) classes))
     = mset (filter (\<lambda>i. f i \<in> set classes) xs)"
proof (induction classes)
  case Nil
  then show ?case by simp
next
  case (Cons c cs)
  then have IH: "mset (concat (map (\<lambda>c. filter (\<lambda>i. f i = c) xs) cs))
     = mset (filter (\<lambda>i. f i \<in> set cs) xs)" and c: "c \<notin> set cs" by auto
  have "filter_mset (\<lambda>i. f i = c) (mset xs) + filter_mset (\<lambda>i. f i \<in> set cs) (mset xs)
      = filter_mset (\<lambda>i. f i = c \<or> f i \<in> set cs) (mset xs)"
    using c by (intro filter_mset_disjoint_union) auto
  then show ?case using IH by simp
qed

lemma class_indices_all:
  assumes "distinct classes" "set classes = set y"
  shows "mset (concat (map (\<lambda>c. filter (\<lambda>i. y ! i = c) [0..<length y]) classes)) = mset [0..<length y]"
proof -
  have "filter (\<lambda>i. y ! i \<in> set classes) [0..<length y] = [0..<length y]"
    using assms(2) by (auto intro!: filter_True)
  then show ?thesis using class_indices_mset[OF assms(1), of "\<lambda>i. y ! i" "[0..<length y]"] by simp
qed

lemma length_class_indices:
  "length (filter (\<lambda>i. y ! i = c) [0..<length y]) = count_list y c"
proof (induction y rule: rev_induct)
  case Nil
  then show ?case by simp
next
  case (snoc a y)
  have "filter (\<lambda>i. (y @ [a]) ! i = c) [0..<length y] = filter (\<lambda>i. y ! i = c) [0..<length y]"
    by (intro filter_cong) (auto simp: nth_append)
  then show ?case using snoc by (simp add: nth_append)
qed

lemma sum_list_map2_diff:
  fixes xs ys :: "int list"
  shows "length xs = length ys \<Longrightarrow> sum_list (map2 (\<lambda>c n. c - n) xs ys) = sum_list xs - sum_list ys"
  by (induction xs ys rule: list_induct2) auto

lemma permute_mset:
  assumes "rng_ok R" "permute R g xs = (ys, g')"
  shows "mset ys = mset xs"
proof -
  obtain p g1 where p: "rng_permutation R g (length xs) = (p, g1)"
    by (cases "rng_permutation R g (length xs)")
  from assms(1) have "mset (fst (rng_permutation R g (length xs))) = mset [0..<length xs]"
    unfolding rng_ok_def by blast
  then have m: "mset p = mset [0..<length xs]" using p by simp
  have "ys = map (\<lambda>j. xs ! j) p" using assms(2) p by (simp add: permute_def)
  then have "mset ys = image_mset (\<lambda>j. xs ! j) (mset p)" by simp
  also have "\<dots> = mset (map (\<lambda>j. xs ! j) [0..<length xs])" by (simp add: m)
  also have "\<dots> = mset xs" by (simp add: map_nth)
  finally show ?thesis .
qed

lemma stratified_indices_partition:
  assumes "rng_ok R"
    and "stratified_indices R g y n_train n_test = (Inr (train, test), g')"
    and "n_train + n_test = length y" "0 < n_test"
  shows "mset (train @ test) = mset [0..<length y]"
proof -
  define classes where "classes = sort (remdups y)"
  define cc where "cc = map (\<lambda>c. int (count_list y c)) classes"
  define CI where "CI = map (\<lambda>c. filter (\<lambda>i. y ! i = c) [0..<length y]) classes"
  obtain n_i g1 where a1: "approximate_mode R cc n_train g = (n_i, g1)"
    by (cases "approximate_mode R cc n_train g")
  define r where "r = map2 (\<lambda>c n. c - n) cc n_i"
  obtain t_i g2 where a2: "approximate_mode R r n_test g1 = (t_i, g2)"
    by (cases "approximate_mode R r n_test g1")
  define zs where "zs = zip cc (zip CI (zip n_i t_i))"
  obtain tr te g3 where cl: "class_loop R zs [] [] g2 = (tr, te, g3)"
    by (cases "class_loop R zs [] [] g2")
  obtain train1 g4 where p1: "permute R g3 tr = (train1, g4)" by (cases "permute R g3 tr")
  obtain test1 g5 where p2: "permute R g4 te = (test1, g5)" by (cases "permute R g4 te")
  from assms(2) have res: "train = train1" "test = test1"
    by (auto simp: stratified_indices_def Let_def classes_def[symmetric] cc_def[symmetric]
        CI_def[symmetric] a1 r_def[symmetric] a2 zs_def[symmetric] cl p1 p2 split: if_splits)
  have dc: "distinct classes" "set classes = set y" by (simp_all add: classes_def)
  have mCI: "mset (concat CI) = mset [0..<length y]"
    unfolding CI_def by (rule class_indices_all[OF dc])
  have lens: "length cc = length classes" "length CI = length classes"
    by (simp_all add: cc_def CI_def)
  have ccCI: "cc = map (\<lambda>I. int (length I)) CI"
    by (simp add: cc_def CI_def length_class_indices)
  have "sum_list cc = int (length (concat CI))"
    by (simp add: ccCI length_concat int_sum_list_map comp_def)
  also have "length (concat CI) = length y" using mCI by (metis size_mset length_upt diff_zero)
  finally have scc: "sum_list cc = int (length y)" .
  have "0 < length y" using assms(3,4) by linarith
  then have pos: "0 < sum_list cc" unfolding scc by simp
  from approximate_mode_sum[OF assms(1) pos, of n_train g] a1
  have ni: "sum_list n_i = int n_train" "length n_i = length cc" by simp_all
  have sr: "sum_list r = int n_test"
    using sum_list_map2_diff[of cc n_i] ni scc assms(3) by (simp add: r_def)
  from approximate_mode_exact[OF sr assms(4), of R g1] a2 have ti: "t_i = r" by simp
  have lz: "length t_i = length cc" using ti ni(2) by (simp add: r_def)
  have zprop: "\<forall>(c, I, n, t) \<in> set zs. nat c = length I \<and> n + t = int (length I)"
  proof -
    have "nat c = length I \<and> n + t = int (length I)" if "(c, I, n, t) \<in> set zs" for c I n t
    proof -
      from that obtain j where j: "j < length zs" "zs ! j = (c, I, n, t)"
        by (auto simp: in_set_conv_nth)
      have jl: "j < length cc" using j(1) by (simp add: zs_def)
      then have "zs ! j = (cc ! j, CI ! j, n_i ! j, t_i ! j)"
        using lens ni(2) lz by (simp add: zs_def)
      with j(2) have e: "c = cc ! j" "I = CI ! j" "n = n_i ! j" "t = t_i ! j" by simp_all
      have "cc ! j = int (length (CI ! j))" using jl lens by (simp add: ccCI)
      moreover have "t_i ! j = cc ! j - n_i ! j" using jl ni(2) by (simp add: ti r_def)
      ultimately show ?thesis using e by simp
    qed
    then show ?thesis by auto
  qed
  have "map (\<lambda>(c, I, n, t). I) zs = CI"
  proof -
    have "map (\<lambda>(c, I, n, t). I) zs = map fst (map snd zs)" by (simp add: case_prod_unfold comp_def)
    also have "map snd zs = zip CI (zip n_i t_i)"
      unfolding zs_def using lens ni(2) lz by (intro map_snd_zip) simp
    also have "map fst (zip CI (zip n_i t_i)) = CI"
      using lens ni(2) lz by (intro map_fst_zip) simp
    finally show ?thesis .
  qed
  with class_loop_mset[OF assms(1) zprop cl] have "mset (tr @ te) = mset (concat CI)" by simp
  moreover have "mset train1 = mset tr" using permute_mset[OF assms(1) p1] .
  moreover have "mset test1 = mset te" using permute_mset[OF assms(1) p2] .
  ultimately show ?thesis using mCI res by simp
qed

lemma split_indices_partition:
  assumes "rng_ok R" "split_indices R g y test_size = (Inr (train, test), g')"
  shows "mset (train @ test) = mset [0..<col_len y]"
proof -
  from assms(2) obtain n_train n_test where
    v: "validate_shuffle_split (col_len y) test_size = Inr (n_train, n_test)"
    by (auto simp: split_indices_def split: sum.splits)
  from validate_shuffle_split_Inr[OF v] have n: "n_train + n_test = col_len y" "0 < n_test" by auto
  show ?thesis
  proof (cases y)
    case (NumCol ys)
    with assms(2) v have "stratified_indices R g (map the ys) n_train n_test = (Inr (train, test), g')"
      by (auto simp: split_indices_def split: if_splits)
    from stratified_indices_partition[OF assms(1) this] n NumCol show ?thesis by simp
  next
    case (StrCol ys)
    with assms(2) v have "stratified_indices R g (map the ys) n_train n_test = (Inr (train, test), g')"
      by (auto simp: split_indices_def split: if_splits)
    from stratified_indices_partition[OF assms(1) this] n StrCol show ?thesis by simp
  qed
qed

lemma split_data_Inr:
  assumes "split_data R g h data t ts rs = (h2, g2, lg, Inr (X_train, X_test, y_train, y_test))"
  shows "\<exists>X0 y lg2 train test g'.
           drop_columns (h ! data) [t, ''customer_id''] = Inr X0 \<and>
           map_of (h ! data) t = Some y \<and>
           handle_outliers (h @ [X0]) (length h)
              (map fst (filter (\<lambda>(c, col). is_NumCol col) X0)) ''iqr'' (3/2) = (h2, lg2, Inr (Suc (length h))) \<and>
           split_indices R (check_random_state R g rs) y ts = (Inr (train, test), g') \<and>
           X_train = take_rows (h2 ! Suc (length h)) train \<and>
           X_test = take_rows (h2 ! Suc (length h)) test \<and>
           y_train = col_take y train \<and> y_test = col_take y test"
proof -
  from assms obtain X0 where d: "drop_columns (h ! data) [t, ''customer_id''] = Inr X0"
    by (cases "drop_columns (h ! data) [t, ''customer_id'']") (auto simp: split_data_def Let_def)
  from assms d obtain y where y: "map_of (h ! data) t = Some y"
    by (cases "map_of (h ! data) t") (auto simp: split_data_def Let_def)
  define cols where "cols = map fst (filter (\<lambda>(c, col). is_NumCol col) X0)"
  obtain hh lg2 rr where ho: "handle_outliers (h @ [X0]) (length h) cols ''iqr'' (3/2) = (hh, lg2, rr)"
    by (cases "handle_outliers (h @ [X0]) (length h) cols ''iqr'' (3/2)")
  from assms d y ho obtain X where rr: "rr = Inr X"
    by (cases rr) (auto simp: split_data_def Let_def cols_def)
  from handle_outliers_Inr[OF ho[unfolded rr]] have X: "X = Suc (length h)" by simp
  obtain r gg where si: "split_indices R (check_random_state R g rs) y ts = (r, gg)"
    by (cases "split_indices R (check_random_state R g rs) y ts")
  from assms d y ho rr si obtain train test where r: "r = Inr (train, test)"
    by (cases r) (auto simp: split_data_def Let_def cols_def train_test_split_def)
  from assms d y ho rr si r X have
    "hh = h2" "X_train = take_rows (h2 ! Suc (length h)) train"
    "X_test = take_rows (h2 ! Suc (length h)) test"
    "y_train = col_take y train" "y_test = col_take y test"
    by (auto simp: split_data_def Let_def cols_def train_test_split_def)
  with d y ho rr si r X show ?thesis unfolding cols_def by blast
qed

subsection \<open>The split of \<^verbatim>\<open>preprocess_data\<close>\<close>

lemma col_len_col_take [simp]: "col_len (col_take col idx) = length idx"
  by (cases col) auto

lemma rng_ok_example: "rng_ok example_rng"
  by (auto simp: rng_ok_def example_rng_def dest: in_set_takeD)

text \<open>
  Claim C3. When the split inside \<^verbatim>\<open>preprocess_data\<close> returns, there are two lists of
  row positions, for training and for test, that together hold every row position of the
  input exactly once: their lengths add up to the row count and no position is in both.
  The training and test features are the rows of the feature frame at these positions, and
  the training and test labels are the labels at the same positions.
\<close>

theorem split_is_partition:
  assumes "rng_ok R"
    and "split_data R g h data t ts rs = (h2, g2, lg, Inr (X_train, X_test, y_train, y_test))"
  shows "\<exists>y train test.
           map_of (h ! data) t = Some y \<and>
           (wf_frame (h ! data) \<longrightarrow> col_len y = n_rows (h ! data)) \<and>
           mset (train @ test) = mset [0..<col_len y] \<and>
           length train + length test = col_len y \<and>
           set train \<inter> set test = {} \<and> distinct train \<and> distinct test \<and>
           X_train = take_rows (h2 ! Suc (length h)) train \<and>
           X_test = take_rows (h2 ! Suc (length h)) test \<and>
           y_train = col_take y train \<and> y_test = col_take y test \<and>
           (\<forall>(c, col) \<in> set X_train. col_len col = length train) \<and>
           (\<forall>(c, col) \<in> set X_test. col_len col = length test) \<and>
           col_len y_train + col_len y_test = col_len y"
proof -
  from split_data_Inr[OF assms(2)] obtain y train test g' where
    y: "map_of (h ! data) t = Some y" and
    si: "split_indices R (check_random_state R g rs) y ts = (Inr (train, test), g')" and
    fr: "X_train = take_rows (h2 ! Suc (length h)) train"
        "X_test = take_rows (h2 ! Suc (length h)) test"
        "y_train = col_take y train" "y_test = col_take y test"
    by blast
  have m: "mset (train @ test) = mset [0..<col_len y]"
    using split_indices_partition[OF assms(1) si] .
  then have len: "length train + length test = col_len y"
    by (metis size_mset length_append length_upt diff_zero)
  have "distinct (train @ test)" using m by (metis distinct_upt mset_eq_imp_distinct_iff)
  then have d: "set train \<inter> set test = {}" "distinct train" "distinct test" by auto
  have wf: "col_len y = n_rows (h ! data)" if "wf_frame (h ! data)"
  proof -
    have "(t, y) \<in> set (h ! data)" using y by (rule map_of_SomeD)
    with that show ?thesis by (auto simp: wf_frame_def list_all_iff)
  qed
  have cols: "\<forall>(c, col) \<in> set (take_rows df idx). col_len col = length idx" for df idx
    by (auto simp: take_rows_def)
  show ?thesis
    using y wf m len d fr cols[of "h2 ! Suc (length h)" train] cols[of "h2 ! Suc (length h)" test]
    by (intro exI[of _ y] exI[of _ train] exI[of _ test]) simp
qed

theorem split_is_partition_witness:
  "rng_ok example_rng \<and>
   split_data example_rng () [example_data] 0 ''default'' (1/5) (Some 42)
     = ([example_data,
         [(''income'', NumCol [Some 1, Some 3, Some 2, Some 1, Some 3, Some 5])],
         [(''income'', NumCol [Some 1, Some 3, Some 2, Some 1, Some 3, Some 5])]],
        (), [Info_start, Info_no_missing, Info_shapes 6 1 6, Info_split 4 1 2 1],
        Inr ([(''income'', NumCol [Some 1, Some 3, Some 1, Some 3])],
             [(''income'', NumCol [Some 2, Some 5])],
             NumCol [Some 0, Some 0, Some 1, Some 1],
             NumCol [Some 0, Some 1])) \<and>
   (\<exists>y train test.
      map_of ([example_data] ! 0) ''default'' = Some y \<and>
      (wf_frame ([example_data] ! 0) \<longrightarrow> col_len y = n_rows ([example_data] ! 0)) \<and>
      mset (train @ test) = mset [0..<col_len y] \<and>
      length train + length test = col_len y \<and>
      set train \<inter> set test = {} \<and> distinct train \<and> distinct test \<and>
      [(''income'', NumCol [Some 1, Some 3, Some 1, Some 3])]
        = take_rows ([example_data,
            [(''income'', NumCol [Some 1, Some 3, Some 2, Some 1, Some 3, Some 5])],
            [(''income'', NumCol [Some 1, Some 3, Some 2, Some 1, Some 3, Some 5])]]
              ! Suc (length [example_data])) train \<and>
      [(''income'', NumCol [Some 2, Some 5])]
        = take_rows ([example_data,
            [(''income'', NumCol [Some 1, Some 3, Some 2, Some 1, Some 3, Some 5])],
            [(''income'', NumCol [Some 1, Some 3, Some 2, Some 1, Some 3, Some 5])]]
              ! Suc (length [example_data])) test \<and>
      NumCol [Some 0, Some 0, Some 1, Some 1] = col_take y train \<and>
      NumCol [Some 0, Some 1] = col_take y test \<and>
      (\<forall>(c, col) \<in> set [(''income'', NumCol [Some 1, Some 3, Some 1, Some 3])].
          col_len col = length train) \<and>
      (\<forall>(c, col) \<in> set [(''income'', NumCol [Some 2, Some 5])]. col_len col = length test) \<and>
      col_len (NumCol [Some 0, Some 0, Some 1, Some 1]) + col_len (NumCol [Some 0, Some 1])
        = col_len y)"
  by (intro conjI rng_ok_example split_data_example
      split_is_partition[OF rng_ok_example split_data_example])

lemma train_test_split_seed:
  "train_test_split R g X y ts (Some seed) = (fst (train_test_split R g' X y ts (Some seed)), g)"
  by (simp add: train_test_split_def check_random_state_def split: prod.splits)

lemma split_data_seed:
  "split_data R g h data t ts (Some seed) =
     (case split_data R g' h data t ts (Some seed) of (h2, g2, lg, r) \<Rightarrow> (h2, g, lg, r)) \<and>
   fst (snd (split_data R g' h data t ts (Some seed))) = g'"
  unfolding split_data_def Let_def
  by (subst (1 2 3) train_test_split_seed[of R _ _ _ _ seed g'])
     (auto split: sum.splits option.splits prod.splits)

text \<open>
  Without a seed the split follows the global generator: two states of it give two splits.
\<close>

lemma split_without_seed_follows_generator:
  "fst (train_test_split flip_rng True [] (NumCol [Some 0, Some 0, Some 0, Some 1, Some 1, Some 1])
          (1/5) None)
   \<noteq> fst (train_test_split flip_rng False [] (NumCol [Some 0, Some 0, Some 0, Some 1, Some 1, Some 1])
          (1/5) None)"
  by code_simp

text \<open>
  Claim C5. With a seed, the split does not depend on the state of the global generator,
  the one thing that differs between two runs on the same arguments: two calls give the
  same train and test features and labels, and two runs of \<^verbatim>\<open>preprocess_data\<close> give the
  same store, the same log and the same outputs, and leave the global generator as it was.
\<close>

theorem split_deterministic_given_seed:
  "fst (train_test_split R g X y ts (Some seed)) = fst (train_test_split R g' X y ts (Some seed)) \<and>
   fst (preprocess_data R g h data t ts (Some seed)) = fst (preprocess_data R g' h data t ts (Some seed)) \<and>
   snd (snd (preprocess_data R g h data t ts (Some seed)))
     = snd (snd (preprocess_data R g' h data t ts (Some seed))) \<and>
   fst (snd (preprocess_data R g h data t ts (Some seed))) = g"
proof -
  have a: "fst (train_test_split R g X y ts (Some seed)) = fst (train_test_split R g' X y ts (Some seed))"
    by (subst train_test_split_seed[of R g X y ts seed g']) simp
  obtain h2 g2 lg r where s: "split_data R g' h data t ts (Some seed) = (h2, g2, lg, r)"
    by (cases "split_data R g' h data t ts (Some seed)")
  from split_data_seed[of R g h data t ts seed g'] s
  have s': "split_data R g h data t ts (Some seed) = (h2, g, lg, r)" by simp
  have "fst (preprocess_data R g h data t ts (Some seed)) = fst (preprocess_data R g' h data t ts (Some seed)) \<and>
   snd (snd (preprocess_data R g h data t ts (Some seed)))
     = snd (snd (preprocess_data R g' h data t ts (Some seed))) \<and>
   fst (snd (preprocess_data R g h data t ts (Some seed))) = g"
    by (auto simp: preprocess_data_def s s' split: sum.splits prod.splits)
  with a show ?thesis by simp
qed

section \<open>Properties of the scaler\<close>


lemma length_scale_column [simp]: "length (scale_column m s xs) = length xs"
  by (simp add: scale_column_def)



lemma fit_Inr:
  assumes "fit s X = (s', Inr u)"
  shows "check_array X = Inr (map (\<lambda>(c, col). num_values col) X) \<and>
         s' = Some \<lparr>fitted_names = map fst X,
                    fitted_mean = map (\<lambda>(c, col). col_mean (num_values col)) X,
                    fitted_var = map (\<lambda>(c, col). col_var (num_values col)) X,
                    fitted_scale = map (\<lambda>(c, col). col_scale (num_values col)) X\<rparr>"
  using assms
  by (auto simp: fit_def check_array_def case_prod_unfold comp_def split: sum.splits if_splits)






text \<open>
  Claim C8. For every frame, transform on a scaler that has not been fitted raises
  \<^verbatim>\<open>NotFittedError\<close> and returns nothing. After a fit that succeeded, transform succeeds on
  the frame that was fitted and on every frame that the input check accepts and that has
  the same column names.
\<close>

theorem transform_requires_fit:
  "transform None X = (None, Inl NotFittedError) \<and>
   (fit s0 X_train = (s, Inr u) \<longrightarrow>
      (\<exists>Y. transform s X_train = (s, Inr Y)) \<and>
      (\<forall>X' M. check_array X' = Inr M \<and> map fst X' = map fst X_train \<longrightarrow>
          (\<exists>Y. transform s X' = (s, Inr Y))))"
proof -
  have "transform None X = (None, Inl NotFittedError)" by (simp add: transform_def)
  moreover have "(\<exists>Y. transform s X_train = (s, Inr Y)) \<and>
      (\<forall>X' M. check_array X' = Inr M \<and> map fst X' = map fst X_train \<longrightarrow>
          (\<exists>Y. transform s X' = (s, Inr Y)))" if "fit s0 X_train = (s, Inr u)"
    using fit_Inr[OF that] by (auto simp: transform_def)
  ultimately show ?thesis by blast
qed

theorem transform_requires_fit_witness:
  "transform None [(''f'', NumCol [Some 5])] = (None, Inl NotFittedError) \<and>
   fit None [(''f'', NumCol [Some 1, Some 3])]
     = (Some \<lparr>fitted_names = [''f''], fitted_mean = [Some 2], fitted_var = [Some 1],
               fitted_scale = [Some 1]\<rparr>, Inr ()) \<and>
   check_array [(''f'', NumCol [Some 5])] = Inr [[Some 5]] \<and>
   transform (Some \<lparr>fitted_names = [''f''], fitted_mean = [Some 2], fitted_var = [Some 1],
                     fitted_scale = [Some 1]\<rparr>) [(''f'', NumCol [Some 5])]
     = (Some \<lparr>fitted_names = [''f''], fitted_mean = [Some 2], fitted_var = [Some 1],
               fitted_scale = [Some 1]\<rparr>, Inr [[Some 3]])"
proof -
  let ?p = "Some \<lparr>fitted_names = [''f''], fitted_mean = [Some 2], fitted_var = [Some 1],
               fitted_scale = [Some 1]\<rparr>"
  have f: "fit None [(''f'', NumCol [Some 1, Some 3])] = (?p, Inr ())"
    by (simp add: scaler_eval)
  have c: "check_array [(''f'', NumCol [Some 5])] = Inr [[Some 5]]"
    by (simp add: scaler_eval)
  from transform_requires_fit[of "[(''f'', NumCol [Some 5])]" None "[(''f'', NumCol [Some 1, Some 3])]" ?p "()"] f c
  have "transform None [(''f'', NumCol [Some 5])] = (None, Inl NotFittedError)"
    and "\<exists>Y. transform ?p [(''f'', NumCol [Some 5])] = (?p, Inr Y)"
    by auto
  then show ?thesis using f c by (auto simp: scaler_eval)
qed










end
